theory Spec2Isabelle
  imports Main "HOL-Library.Word" "HOL-Library.Monad_Syntax" "HOL-Library.Product_Lexorder"
begin

section \<open>JavaScript strings\<close>

text \<open>
  A JavaScript string is a sequence of 16-bit code units. \<open>js\<close> embeds an ASCII literal.
\<close>

type_synonym codeunit = "16 word"
type_synonym jsstring = "codeunit list"

definition js :: "string \<Rightarrow> jsstring" where
  "js s = map (\<lambda>c. of_nat (of_char c)) s"

text \<open>
  The code units removed by \<^verbatim>\<open>String.prototype.trim\<close> and matched by the regular
  expression class \<^verbatim>\<open>\s\<close>: ECMAScript WhiteSpace and LineTerminator.
\<close>

definition isWhiteSpace :: "codeunit \<Rightarrow> bool" where
  "isWhiteSpace c \<longleftrightarrow>
     c = 0x0009 \<or> c = 0x000A \<or> c = 0x000B \<or> c = 0x000C \<or> c = 0x000D \<or> c = 0x0020 \<or>
     c = 0x00A0 \<or> c = 0x1680 \<or> (0x2000 \<le> c \<and> c \<le> 0x200A) \<or> c = 0x2028 \<or>
     c = 0x2029 \<or> c = 0x202F \<or> c = 0x205F \<or> c = 0x3000 \<or> c = 0xFEFF"

text \<open>The regular expression class \<^verbatim>\<open>\w\<close> (no unicode or ignore-case flag): A-Z, a-z, 0-9 and underscore.\<close>

definition isWordChar :: "codeunit \<Rightarrow> bool" where
  "isWordChar c \<longleftrightarrow>
     (0x30 \<le> c \<and> c \<le> 0x39) \<or> (0x41 \<le> c \<and> c \<le> 0x5A) \<or> c = 0x5F \<or> (0x61 \<le> c \<and> c \<le> 0x7A)"

definition trim :: "jsstring \<Rightarrow> jsstring" where
  "trim t = rev (dropWhile isWhiteSpace (rev (dropWhile isWhiteSpace t)))"

definition startsWith :: "jsstring \<Rightarrow> jsstring \<Rightarrow> bool" where
  "startsWith t p \<longleftrightarrow> take (length p) t = p"

text \<open>
  \<^verbatim>\<open>text.match(/^def (\w+)/)\<close>: the first capture group when the text begins with
  \<^verbatim>\<open>def\<close>, one space and at least one word character (the group is greedy), otherwise no match.
\<close>

definition matchDef :: "jsstring \<Rightarrow> jsstring option" where
  "matchDef text =
     (if startsWith text (js ''def '') \<and> takeWhile isWordChar (drop 4 text) \<noteq> []
      then Some (takeWhile isWordChar (drop 4 text)) else None)"

section \<open>Documents\<close>

text \<open>
  The part of \<^verbatim>\<open>vscode.TextDocument\<close> the extension uses. \<^verbatim>\<open>lineAt\<close> throws for a line
  number outside the document: the result \<open>None\<close>. A \<^verbatim>\<open>TextLine\<close> is represented by its
  text; its \<^verbatim>\<open>firstNonWhitespaceCharacterIndex\<close> is the length of the longest prefix matched by
  \<^verbatim>\<open>\s*\<close> (the length of the line when it is all whitespace).
\<close>

record TextDocument =
  uri :: jsstring
  languageId :: jsstring
  lines :: "jsstring list"

definition lineCount :: "TextDocument \<Rightarrow> nat" where
  "lineCount document = length (lines document)"

definition lineAt :: "TextDocument \<Rightarrow> nat \<Rightarrow> jsstring option" where
  "lineAt document i = (if i < lineCount document then Some (lines document ! i) else None)"

definition firstNonWhitespaceCharacterIndex :: "jsstring \<Rightarrow> nat" where
  "firstNonWhitespaceCharacterIndex text = length (takeWhile isWhiteSpace text)"

section \<open>Block boundaries\<close>

text \<open>\<^verbatim>\<open>findFunctionStartLine\<close>: the loop variable \<open>i\<close> runs from \<open>startLine\<close>.\<close>

function findFunctionStartLine_loop :: "TextDocument \<Rightarrow> nat \<Rightarrow> nat \<Rightarrow> nat option" where
  "findFunctionStartLine_loop document startLine i =
     (if i < lineCount document then
        (case lineAt document i of
           None \<Rightarrow> None
         | Some text \<Rightarrow>
             if startsWith (trim text) (js ''def '') then Some i
             else if \<not> startsWith (trim text) (js ''@'') \<and> trim text \<noteq> [] then Some startLine
             else findFunctionStartLine_loop document startLine (Suc i))
      else Some startLine)"
  by pat_completeness auto
termination
  by (relation "measure (\<lambda>(document, startLine, i). lineCount document - i)") auto

definition findFunctionStartLine :: "TextDocument \<Rightarrow> nat \<Rightarrow> nat option" where
  "findFunctionStartLine document startLine = findFunctionStartLine_loop document startLine startLine"

text \<open>
  \<^verbatim>\<open>findEndOfFunction\<close>: the loop variable \<open>i\<close> runs from \<open>startLine + 1\<close>, so \<open>i - 1\<close> is
  never below \<open>startLine\<close>; the loop is entered only after \<^verbatim>\<open>lineAt(startLine)\<close> has
  succeeded, so \<open>lineCount - 1\<close> is not negative there.
\<close>

function findEndOfFunction_loop :: "TextDocument \<Rightarrow> nat \<Rightarrow> nat \<Rightarrow> nat option" where
  "findEndOfFunction_loop document startIndentation i =
     (if i < lineCount document then
        (case lineAt document i of
           None \<Rightarrow> None
         | Some text \<Rightarrow>
             if trim text = [] then findEndOfFunction_loop document startIndentation (Suc i)
             else if firstNonWhitespaceCharacterIndex text < startIndentation
                     \<or> startsWith (trim text) (js ''def '')
               then Some (i - 1)
             else findEndOfFunction_loop document startIndentation (Suc i))
      else Some (lineCount document - 1))"
  by pat_completeness auto
termination
  by (relation "measure (\<lambda>(document, startIndentation, i). lineCount document - i)") auto

definition findEndOfFunction :: "TextDocument \<Rightarrow> nat \<Rightarrow> nat option" where
  "findEndOfFunction document startLine = do {
     text \<leftarrow> lineAt document startLine;
     findEndOfFunction_loop document (firstNonWhitespaceCharacterIndex text) (startLine + 1)
   }"

section \<open>Format validation\<close>

definition topComment :: jsstring where
  "topComment = js ''# |-----------------------------------------------------------------------------|''"

definition functionComment :: "jsstring \<Rightarrow> jsstring" where
  "functionComment functionName = js ''# '' @ functionName"

definition bottomComment :: "jsstring \<Rightarrow> jsstring" where
  "bottomComment functionName =
     js ''# |-------------------------End of '' @ functionName @ js '' ------------------------------|''"

text \<open>
  \<^verbatim>\<open>hasValidFormat\<close>. The line after the block is read (when it exists) and not compared:
  the comparison is commented out in the source.
\<close>

definition hasValidFormat :: "TextDocument \<Rightarrow> nat \<Rightarrow> jsstring \<Rightarrow> bool option" where
  "hasValidFormat document lineNumber functionName = do {
     functionStartLine \<leftarrow> findFunctionStartLine document lineNumber;
     if functionStartLine < 3 then Some False
     else do {
       topBoundaryLine \<leftarrow> map_option trim (lineAt document (functionStartLine - 3));
       functionCommentLine \<leftarrow> map_option trim (lineAt document (functionStartLine - 2));
       middleBoundaryLine \<leftarrow> map_option trim (lineAt document (functionStartLine - 1));
       functionDefinitionLine \<leftarrow> map_option trim (lineAt document functionStartLine);
       lastFunctionLine \<leftarrow> findEndOfFunction document functionStartLine;
       bottomBoundaryLine \<leftarrow>
         (if lastFunctionLine + 1 < lineCount document
          then map_option trim (lineAt document (lastFunctionLine + 1)) else Some []);
       Some (topBoundaryLine = topComment
             \<and> functionCommentLine = js ''# '' @ functionName
             \<and> middleBoundaryLine = topComment
             \<and> startsWith functionDefinitionLine (js ''def '' @ functionName))
     }
   }"

section \<open>The scan\<close>

datatype DiagnosticSeverity = Error | Warning | Information | Hint

record Diagnostic =
  startLine :: nat
  startCharacter :: nat
  endLine :: nat
  endCharacter :: nat
  message :: jsstring
  severity :: DiagnosticSeverity
  code :: jsstring

definition formatMessage :: "jsstring \<Rightarrow> jsstring" where
  "formatMessage functionName =
     js ''Function '' @ [0x27] @ functionName @ [0x27] @ js '' does not follow the required format''"

definition newDiagnostic :: "nat \<Rightarrow> nat \<Rightarrow> jsstring \<Rightarrow> Diagnostic" where
  "newDiagnostic functionStartLine textLength functionName =
     \<lparr>startLine = functionStartLine, startCharacter = 0,
      endLine = functionStartLine, endCharacter = textLength,
      message = formatMessage functionName, severity = Warning, code = js ''functionFormat''\<rparr>"

text \<open>One iteration of the loop of \<^verbatim>\<open>updateDiagnostics\<close>: the diagnostics it pushes.\<close>

definition diagnosticsBody :: "TextDocument \<Rightarrow> nat \<Rightarrow> Diagnostic list option" where
  "diagnosticsBody document i = do {
     functionStartLine \<leftarrow> findFunctionStartLine document i;
     text \<leftarrow> lineAt document functionStartLine;
     case matchDef text of
       None \<Rightarrow> Some []
     | Some functionName \<Rightarrow> do {
         valid \<leftarrow> hasValidFormat document functionStartLine functionName;
         if \<not> valid then do {
           text' \<leftarrow> lineAt document functionStartLine;
           Some [newDiagnostic functionStartLine (length text') functionName]
         } else Some []
       }
   }"

function diagnosticsLoop :: "TextDocument \<Rightarrow> nat \<Rightarrow> Diagnostic list \<Rightarrow> Diagnostic list option" where
  "diagnosticsLoop document i diagnostics =
     (if i < lineCount document then
        (case diagnosticsBody document i of
           None \<Rightarrow> None
         | Some pushed \<Rightarrow> diagnosticsLoop document (Suc i) (diagnostics @ pushed))
      else Some diagnostics)"
  by pat_completeness auto
termination
  by (relation "measure (\<lambda>(document, i, diagnostics). lineCount document - i)") auto

text \<open>The array \<^verbatim>\<open>diagnostics\<close> that the loop of \<^verbatim>\<open>updateDiagnostics\<close> builds for a document.\<close>

definition scan :: "TextDocument \<Rightarrow> Diagnostic list option" where
  "scan document = diagnosticsLoop document 0 []"

text \<open>
  \<^verbatim>\<open>updateDiagnostics\<close>: the collection maps a document's uri to its diagnostics; a document
  that is not Python leaves it as it is.
\<close>

definition updateDiagnostics ::
  "TextDocument \<Rightarrow> (jsstring \<rightharpoonup> Diagnostic list) \<Rightarrow> (jsstring \<rightharpoonup> Diagnostic list) option" where
  "updateDiagnostics document collection =
     (if languageId document \<noteq> js ''python'' then Some collection
      else do {
        diagnostics \<leftarrow> scan document;
        Some (collection(uri document \<mapsto> diagnostics))
      })"

section \<open>The quick fix\<close>

text \<open>An insertion of a \<^verbatim>\<open>WorkspaceEdit\<close>: \<^verbatim>\<open>insert(uri, new Position(line, character), text)\<close>.\<close>

record Insertion =
  atLine :: nat
  atCharacter :: nat
  newText :: jsstring

definition newline :: codeunit where
  "newline = 0x0A"

text \<open>The body of the \<^verbatim>\<open>forEach\<close> of \<^verbatim>\<open>provideCodeActions\<close>: the insertions added for one diagnostic.\<close>

definition fixDiagnostic :: "TextDocument \<Rightarrow> Diagnostic \<Rightarrow> Insertion list option" where
  "fixDiagnostic document diagnostic = do {
     let lineNumber = startLine diagnostic;
     functionStartLine \<leftarrow> findFunctionStartLine document lineNumber;
     text \<leftarrow> lineAt document functionStartLine;
     case matchDef text of
       None \<Rightarrow> Some []
     | Some functionName \<Rightarrow> do {
         lastFunctionLine \<leftarrow> findEndOfFunction document lineNumber;
         Some [\<lparr>atLine = functionStartLine, atCharacter = 0,
                newText = topComment @ [newline] @ functionComment functionName @ [newline]
                          @ topComment @ [newline]\<rparr>,
               \<lparr>atLine = lastFunctionLine + 1, atCharacter = 0,
                newText = [newline] @ bottomComment functionName @ [newline]\<rparr>]
       }
   }"

fun fixAll :: "TextDocument \<Rightarrow> Diagnostic list \<Rightarrow> Insertion list \<Rightarrow> Insertion list option" where
  "fixAll document [] edit = Some edit"
| "fixAll document (diagnostic # diagnostics) edit =
     (case fixDiagnostic document diagnostic of
        None \<Rightarrow> None
      | Some insertions \<Rightarrow> fixAll document diagnostics (edit @ insertions))"

text \<open>
  \<^verbatim>\<open>provideCodeActions\<close>: the outer \<open>None\<close> is an exception, the inner \<open>None\<close> the result
  \<^verbatim>\<open>undefined\<close>; otherwise the insertions of the one quick fix returned.
\<close>

definition provideCodeActions :: "TextDocument \<Rightarrow> Diagnostic list \<Rightarrow> Insertion list option option" where
  "provideCodeActions document contextDiagnostics =
     (let diagnostics = filter (\<lambda>diagnostic. code diagnostic = js ''functionFormat'') contextDiagnostics
      in if length diagnostics = 0 then Some None
         else map_option Some (fixAll document diagnostics []))"

subsection \<open>Applying the insertions\<close>

text \<open>
  The editor applies the insertions of one edit to the snapshot they were computed from:
  each position is validated against that snapshot (a line past the last one becomes the
  end of the document, a character past the end of its line the end of that line), the
  insertions are ordered by position, those at one position in the order they were added,
  and the inserted text is cut at its newlines. A document always has a line; the empty
  list of lines is read as one empty line.
\<close>

fun splitLines :: "jsstring \<Rightarrow> jsstring list" where
  "splitLines [] = [Nil]"
| "splitLines (c # cs) =
     (if c = newline then [] # splitLines cs
      else (case splitLines cs of [] \<Rightarrow> [c # Nil] | piece # pieces \<Rightarrow> (c # piece) # pieces))"

definition validatePosition :: "jsstring list \<Rightarrow> nat \<times> nat \<Rightarrow> nat \<times> nat" where
  "validatePosition ls p =
     (if fst p < length ls then (fst p, min (snd p) (length (ls ! fst p)))
      else if ls = [] then (0, 0)
      else (length ls - 1, length (last ls)))"

text \<open>Insertion at a validated position: line \<open>l\<close> is cut at character \<open>c\<close>.\<close>

definition insertText :: "jsstring list \<Rightarrow> nat \<times> nat \<Rightarrow> jsstring \<Rightarrow> jsstring list" where
  "insertText ls p text =
     (let l = fst p; c = snd p;
          line = (if l < length ls then ls ! l else []);
          pieces = splitLines text
      in take l ls
         @ (if length pieces \<le> 1 then [take c line @ concat pieces @ drop c line]
            else (take c line @ hd pieces) # butlast (tl pieces) @ [last pieces @ drop c line])
         @ drop (Suc l) ls)"

definition applyInsertions :: "jsstring list \<Rightarrow> Insertion list \<Rightarrow> jsstring list" where
  "applyInsertions ls edit =
     foldr (\<lambda>(p, text) ls'. insertText ls' p text)
       (sort_key fst
          (map (\<lambda>insertion. (validatePosition ls (atLine insertion, atCharacter insertion),
                             newText insertion)) edit))
       ls"

section \<open>The specification's operations\<close>

text \<open>
  The operations as the specification words them, to be compared with the functions above.
  \<open>spec_findBlockStart\<close>: the first line from \<open>fromLine\<close> on that is neither blank nor a
  decorator decides: a definition line is returned, anything else (or the end of the
  document) gives \<open>fromLine\<close>.
  \<open>spec_findBlockEnd\<close>: the line before the first non-blank line after \<open>fromLine\<close> that is
  indented less than \<open>fromLine\<close> or begins a definition; the last line when there is none.
  \<open>spec_isValidFormat\<close>: the three lines above \<open>s\<close> are the banner for \<open>name\<close>, and line
  \<open>s\<close> begins the definition of \<open>name\<close>.
\<close>

definition spec_findBlockStart :: "TextDocument \<Rightarrow> nat \<Rightarrow> nat" where
  "spec_findBlockStart doc fromLine =
     (case find (\<lambda>i. \<not> (trim (lines doc ! i) = [] \<or> startsWith (trim (lines doc ! i)) (js ''@'')))
             [fromLine..<lineCount doc] of
        None \<Rightarrow> fromLine
      | Some i \<Rightarrow> if startsWith (trim (lines doc ! i)) (js ''def '') then i else fromLine)"

definition spec_findBlockEnd :: "TextDocument \<Rightarrow> nat \<Rightarrow> nat" where
  "spec_findBlockEnd doc fromLine =
     (case find (\<lambda>i. trim (lines doc ! i) \<noteq> []
                      \<and> (firstNonWhitespaceCharacterIndex (lines doc ! i)
                            < firstNonWhitespaceCharacterIndex (lines doc ! fromLine)
                         \<or> startsWith (trim (lines doc ! i)) (js ''def '')))
             [fromLine + 1..<lineCount doc] of
        None \<Rightarrow> lineCount doc - 1
      | Some i \<Rightarrow> i - 1)"

definition spec_isValidFormat :: "TextDocument \<Rightarrow> nat \<Rightarrow> jsstring \<Rightarrow> bool" where
  "spec_isValidFormat doc s name \<longleftrightarrow>
     3 \<le> s
     \<and> trim (lines doc ! (s - 3)) = topComment
     \<and> trim (lines doc ! (s - 2)) = js ''# '' @ name
     \<and> trim (lines doc ! (s - 1)) = topComment
     \<and> startsWith (trim (lines doc ! s)) (js ''def '' @ name)"

section \<open>Example documents\<close>

definition bannerExample :: TextDocument where
  "bannerExample =
     \<lparr>uri = js ''example.py'', languageId = js ''python'',
      lines = [topComment, js ''# foo'', topComment, js ''def foo():'', js ''    return 1'']\<rparr>"

definition decoratedExample :: TextDocument where
  "decoratedExample =
     \<lparr>uri = js ''example.py'', languageId = js ''python'',
      lines = [js ''@first'', js ''@second'', js ''def foo():'']\<rparr>"

definition nestedExample :: TextDocument where
  "nestedExample =
     \<lparr>uri = js ''example.py'', languageId = js ''python'',
      lines = [js ''class A:'', js ''    def foo(self):'', js ''        pass'', js '''',
               js ''x = 1'']\<rparr>"

definition emptyExample :: TextDocument where
  "emptyExample = \<lparr>uri = js ''empty.py'', languageId = js ''python'', lines = [Nil]\<rparr>"

definition twoLineExample :: TextDocument where
  "twoLineExample =
     \<lparr>uri = js ''example.py'', languageId = js ''python'',
      lines = [js ''def foo():'', js ''    return 1'']\<rparr>"

definition closedExample :: TextDocument where
  "closedExample =
     \<lparr>uri = js ''example.py'', languageId = js ''python'',
      lines = [topComment, js ''# foo'', topComment, js ''def foo():'', js ''    return 1'',
               js ''# not the closing banner'']\<rparr>"

definition paddedExample :: TextDocument where
  "paddedExample =
     \<lparr>uri = js ''example.py'', languageId = js ''python'',
      lines = [js ''  '' @ topComment, js ''# foo  '', topComment @ js '' '', js ''def foo():'',
               js ''    return 1'']\<rparr>"

definition methodExample :: TextDocument where
  "methodExample =
     \<lparr>uri = js ''example.py'', languageId = js ''python'',
      lines = [js ''class A:'', js '''', js ''    def bar(self):'', js ''        return 2'']\<rparr>"

section \<open>Auxiliary lemmas\<close>

lemma isWhiteSpace_unat:
  "isWhiteSpace c \<longleftrightarrow>
     unat c \<in> {9, 10, 11, 12, 13, 32, 160, 5760, 8232, 8233, 8239, 8287, 12288, 65279} \<union> {8192..8202}"
  unfolding isWhiteSpace_def
  by (auto simp: word_le_nat_alt word_unat_eq_iff)

lemma isWordChar_unat:
  "isWordChar c \<longleftrightarrow> unat c \<in> {48..57} \<union> {65..90} \<union> {95} \<union> {97..122}"
  unfolding isWordChar_def
  by (auto simp: word_le_nat_alt word_unat_eq_iff)

lemma isWordChar_not_isWhiteSpace: "isWordChar c \<Longrightarrow> \<not> isWhiteSpace c"
  unfolding isWhiteSpace_unat isWordChar_unat by auto

lemma trim_Nil [simp]: "trim [] = []"
  by (simp add: trim_def)

lemma trim_id:
  assumes "t \<noteq> []" "\<not> isWhiteSpace (hd t)" "\<not> isWhiteSpace (last t)"
  shows "trim t = t"
proof -
  have "dropWhile isWhiteSpace t = t"
    using assms(1,2) by (cases t) auto
  moreover have "dropWhile isWhiteSpace (rev t) = rev t"
    using assms(1,3) by (cases "rev t") (auto simp: last_rev hd_rev dest: arg_cong[where f=hd])
  ultimately show ?thesis by (simp add: trim_def)
qed

lemma startsWith_trim:
  assumes "startsWith t p" "p \<noteq> []" "\<not> isWhiteSpace (hd p)" "\<not> isWhiteSpace (last p)"
  shows "startsWith (trim t) p"
proof -
  from assms(1) obtain r where t: "t = p @ r"
    unfolding startsWith_def by (metis append_take_drop_id)
  have d1: "dropWhile isWhiteSpace t = p @ r"
    using assms(2,3) unfolding t by (cases p) auto
  have rp: "dropWhile isWhiteSpace (rev p) = rev p"
    using assms(2,4) by (cases p rule: rev_cases) auto
  have "\<exists>x. dropWhile isWhiteSpace (rev r @ rev p) = x @ rev p"
    by (simp add: dropWhile_append rp) 
  then obtain x where "dropWhile isWhiteSpace (rev r @ rev p) = x @ rev p" ..
  then have "trim t = p @ rev x"
    by (simp add: trim_def d1)
  then show ?thesis by (simp add: startsWith_def)
qed

lemma startsWith_append: "startsWith t (p @ q) \<Longrightarrow> startsWith t p"
  unfolding startsWith_def
  by (metis append_eq_conv_conj take_all_iff take_append length_append le_add1 take_take min.absorb1 append_take_drop_id)

declare findFunctionStartLine_loop.simps [simp del]

declare findEndOfFunction_loop.simps [simp del]

lemma find_upt_Some:
  assumes "find P [i..<n] = Some j"
  shows "i \<le> j \<and> j < n \<and> P j \<and> (\<forall>k. i \<le> k \<and> k < j \<longrightarrow> \<not> P k)"
proof -
  from assms obtain idx where idx: "idx < length [i..<n]" "P ([i..<n] ! idx)" "j = [i..<n] ! idx"
    "\<forall>m<idx. \<not> P ([i..<n] ! m)"
    unfolding find_Some_iff by blast
  have j: "j = i + idx" using idx(1,3) by simp
  have "\<not> P k" if "i \<le> k" "k < j" for k
  proof -
    have "k - i < idx" using that j by arith
    with idx(4) have "\<not> P ([i..<n] ! (k - i))" by blast
    moreover have "[i..<n] ! (k - i) = k" using that j idx(1) by simp
    ultimately show ?thesis by simp
  qed
  then show ?thesis using idx j by auto
qed

lemma startsWith_def_not_skipped:
  "startsWith t (js ''def '') \<Longrightarrow> t \<noteq> [] \<and> \<not> startsWith t (js ''@'')"
  by (cases t) (auto simp: startsWith_def js_def)

lemma findFunctionStartLine_loop_find:
  "findFunctionStartLine_loop doc k i =
     Some (case find (\<lambda>i. \<not> (trim (lines doc ! i) = [] \<or> startsWith (trim (lines doc ! i)) (js ''@'')))
                  [i..<lineCount doc] of
             None \<Rightarrow> k
           | Some j \<Rightarrow> if startsWith (trim (lines doc ! j)) (js ''def '') then j else k)"
proof (induction doc k i rule: findFunctionStartLine_loop.induct)
  case (1 document startLine i)
  show ?case
  proof (cases "i < lineCount document")
    case False
    then show ?thesis
      by (subst findFunctionStartLine_loop.simps) simp
  next
    case True
    then have upt: "[i..<lineCount document] = i # [Suc i..<lineCount document]"
      by (simp add: upt_conv_Cons)
    have at: "lineAt document i = Some (lines document ! i)"
      using True by (simp add: lineAt_def)
    show ?thesis
    proof (cases "startsWith (trim (lines document ! i)) (js ''def '')")
      case d: True
      with startsWith_def_not_skipped[OF d] show ?thesis
        using True at upt by (subst findFunctionStartLine_loop.simps) simp
    next
      case nd: False
      show ?thesis
      proof (cases "\<not> startsWith (trim (lines document ! i)) (js ''@'') \<and> trim (lines document ! i) \<noteq> []")
        case stop: True
        then show ?thesis
          using True at upt nd by (subst findFunctionStartLine_loop.simps) simp
      next
        case skip: False
        have "findFunctionStartLine_loop document startLine i
                = findFunctionStartLine_loop document startLine (Suc i)"
          using True at nd skip by (subst findFunctionStartLine_loop.simps) auto
        also note "1.IH"[OF True at nd skip]
        finally show ?thesis
          using skip upt by auto
      qed
    qed
  qed
qed

lemma findFunctionStartLine_eq: "findFunctionStartLine doc k = Some (spec_findBlockStart doc k)"
  by (simp add: findFunctionStartLine_def spec_findBlockStart_def findFunctionStartLine_loop_find)

lemma spec_findBlockStart_cases:
  "spec_findBlockStart doc k = k \<or>
   (k < spec_findBlockStart doc k \<and> spec_findBlockStart doc k < lineCount doc
    \<and> startsWith (trim (lines doc ! spec_findBlockStart doc k)) (js ''def ''))"
proof (cases "find (\<lambda>i. \<not> (trim (lines doc ! i) = [] \<or> startsWith (trim (lines doc ! i)) (js ''@'')))
             [k..<lineCount doc]")
  case None
  then show ?thesis by (simp add: spec_findBlockStart_def)
next
  case (Some j)
  from find_upt_Some[OF Some] have "k \<le> j" "j < lineCount doc" by auto
  then show ?thesis
    using Some by (auto simp: spec_findBlockStart_def)
qed

lemma spec_findBlockStart_def_line:
  assumes "k < lineCount doc" "startsWith (trim (lines doc ! k)) (js ''def '')"
  shows "spec_findBlockStart doc k = k"
  using assms startsWith_def_not_skipped[OF assms(2)]
  by (simp add: spec_findBlockStart_def upt_conv_Cons)

lemma findEndOfFunction_loop_find:
  "findEndOfFunction_loop doc ind i =
     Some (case find (\<lambda>i. trim (lines doc ! i) \<noteq> []
                      \<and> (firstNonWhitespaceCharacterIndex (lines doc ! i) < ind
                         \<or> startsWith (trim (lines doc ! i)) (js ''def '')))
             [i..<lineCount doc] of
        None \<Rightarrow> lineCount doc - 1
      | Some j \<Rightarrow> j - 1)"
proof (induction doc ind i rule: findEndOfFunction_loop.induct)
  case (1 document startIndentation i)
  show ?case
  proof (cases "i < lineCount document")
    case False
    then show ?thesis
      by (subst findEndOfFunction_loop.simps) simp
  next
    case True
    then have upt: "[i..<lineCount document] = i # [Suc i..<lineCount document]"
      by (simp add: upt_conv_Cons)
    have at: "lineAt document i = Some (lines document ! i)"
      using True by (simp add: lineAt_def)
    show ?thesis
    proof (cases "trim (lines document ! i) = []")
      case blank: True
      have "findEndOfFunction_loop document startIndentation i
                = findEndOfFunction_loop document startIndentation (Suc i)"
        using True at blank by (subst findEndOfFunction_loop.simps) auto
      also note "1.IH"(1)[OF True at blank]
      finally show ?thesis
        using blank upt by auto
    next
      case nonblank: False
      show ?thesis
      proof (cases "firstNonWhitespaceCharacterIndex (lines document ! i) < startIndentation
                     \<or> startsWith (trim (lines document ! i)) (js ''def '')")
        case stop: True
        then show ?thesis
          using True at upt nonblank by (subst findEndOfFunction_loop.simps) auto
      next
        case continue: False
        have "findEndOfFunction_loop document startIndentation i
                = findEndOfFunction_loop document startIndentation (Suc i)"
          using True at nonblank continue by (subst findEndOfFunction_loop.simps) auto
        also note "1.IH"(2)[OF True at nonblank continue]
        finally show ?thesis
          using nonblank continue upt by auto
      qed
    qed
  qed
qed

lemma findEndOfFunction_eq:
  "s < lineCount doc \<Longrightarrow> findEndOfFunction doc s = Some (spec_findBlockEnd doc s)"
  by (simp add: findEndOfFunction_def spec_findBlockEnd_def findEndOfFunction_loop_find lineAt_def)

lemma findEndOfFunction_out_of_range:
  "\<not> s < lineCount doc \<Longrightarrow> findEndOfFunction doc s = None"
  by (simp add: findEndOfFunction_def lineAt_def)

lemma spec_findBlockEnd_bounds:
  assumes "s < lineCount doc"
  shows "s \<le> spec_findBlockEnd doc s \<and> spec_findBlockEnd doc s < lineCount doc"
proof (cases "find (\<lambda>i. trim (lines doc ! i) \<noteq> []
                      \<and> (firstNonWhitespaceCharacterIndex (lines doc ! i)
                            < firstNonWhitespaceCharacterIndex (lines doc ! s)
                         \<or> startsWith (trim (lines doc ! i)) (js ''def '')))
             [s + 1..<lineCount doc]")
  case None
  then show ?thesis using assms by (simp add: spec_findBlockEnd_def)
next
  case (Some j)
  from find_upt_Some[OF Some] have "s + 1 \<le> j" "j < lineCount doc" by auto
  moreover have "spec_findBlockEnd doc s = j - 1"
    using Some by (simp add: spec_findBlockEnd_def)
  ultimately show ?thesis by arith
qed

declare diagnosticsLoop.simps [simp del]

lemma matchDef_SomeD:
  assumes "matchDef text = Some name"
  shows "name \<noteq> []" "\<forall>c\<in>set name. isWordChar c" "startsWith text (js ''def '' @ name)"
proof -
  from assms have sw: "startsWith text (js ''def '')"
    and name: "name = takeWhile isWordChar (drop 4 text)" and ne: "name \<noteq> []"
    by (auto simp: matchDef_def split: if_splits)
  show "name \<noteq> []" by (rule ne)
  show "\<forall>c\<in>set name. isWordChar c"
    unfolding name by (auto dest: set_takeWhileD)
  have len: "length (js ''def '') = 4" by (simp add: js_def)
  have "take 4 text = js ''def ''"
    using sw unfolding startsWith_def len .
  moreover have "take (length name) (drop 4 text) = name"
    unfolding name by (metis append_eq_conv_conj takeWhile_dropWhile_id)
  moreover note len
  ultimately show "startsWith text (js ''def '' @ name)"
    unfolding startsWith_def
    by (metis append_take_drop_id length_append take_add)
qed

lemma matchDef_trim:
  assumes "matchDef text = Some name"
  shows "startsWith (trim text) (js ''def '' @ name)"
proof (rule startsWith_trim)
  show "startsWith text (js ''def '' @ name)" by (rule matchDef_SomeD(3)[OF assms])
  show "js ''def '' @ name \<noteq> []" by (simp add: js_def)
  show "\<not> isWhiteSpace (hd (js ''def '' @ name))" by (simp add: js_def isWhiteSpace_def)
  have "last (js ''def '' @ name) = last name"
    using matchDef_SomeD(1)[OF assms] by simp
  moreover have "isWordChar (last name)"
    using matchDef_SomeD(1,2)[OF assms] by simp
  ultimately show "\<not> isWhiteSpace (last (js ''def '' @ name))"
    by (simp add: isWordChar_not_isWhiteSpace)
qed

lemma matchDef_def_line:
  "matchDef text = Some name \<Longrightarrow> startsWith (trim text) (js ''def '')"
  by (rule startsWith_append[OF matchDef_trim])

lemma hasValidFormat_def_line:
  assumes "s < lineCount doc" "startsWith (trim (lines doc ! s)) (js ''def '')"
  shows "hasValidFormat doc s name = Some (spec_isValidFormat doc s name)"
proof -
  have start: "findFunctionStartLine doc s = Some s"
    by (simp add: findFunctionStartLine_eq spec_findBlockStart_def_line[OF assms])
  show ?thesis
  proof (cases "s < 3")
    case True
    then show ?thesis
      by (simp add: hasValidFormat_def start spec_isValidFormat_def)
  next
    case False
    have e: "findEndOfFunction doc s = Some (spec_findBlockEnd doc s)"
      by (rule findEndOfFunction_eq[OF assms(1)])
    show ?thesis
      using False assms(1)
      by (simp add: hasValidFormat_def start e lineAt_def spec_isValidFormat_def) arith
  qed
qed

lemma diagnosticsBody_eq:
  assumes "i < lineCount doc"
  shows "diagnosticsBody doc i =
     Some (case matchDef (lines doc ! spec_findBlockStart doc i) of
             None \<Rightarrow> []
           | Some name \<Rightarrow>
               if spec_isValidFormat doc (spec_findBlockStart doc i) name then []
               else [newDiagnostic (spec_findBlockStart doc i)
                       (length (lines doc ! spec_findBlockStart doc i)) name])"
proof -
  let ?s = "spec_findBlockStart doc i"
  have s: "?s < lineCount doc"
    using spec_findBlockStart_cases[of doc i] assms by auto
  show ?thesis
  proof (cases "matchDef (lines doc ! ?s)")
    case None
    then show ?thesis
      using s by (simp add: diagnosticsBody_def findFunctionStartLine_eq lineAt_def)
  next
    case (Some name)
    have "hasValidFormat doc ?s name = Some (spec_isValidFormat doc ?s name)"
      by (rule hasValidFormat_def_line[OF s matchDef_def_line[OF Some]])
    then show ?thesis
      using s Some by (simp add: diagnosticsBody_def findFunctionStartLine_eq lineAt_def)
  qed
qed

lemma diagnosticsLoop_eq:
  "diagnosticsLoop doc i acc =
     Some (acc @ concat (map (\<lambda>j. the (diagnosticsBody doc j)) [i..<lineCount doc]))"
proof (induction doc i acc rule: diagnosticsLoop.induct)
  case (1 document i diagnostics)
  show ?case
  proof (cases "i < lineCount document")
    case False
    then show ?thesis by (subst diagnosticsLoop.simps) simp
  next
    case True
    from diagnosticsBody_eq[OF True] obtain pushed where
      pushed: "diagnosticsBody document i = Some pushed" by blast
    have "diagnosticsLoop document i diagnostics
            = diagnosticsLoop document (Suc i) (diagnostics @ pushed)"
      using True pushed by (subst diagnosticsLoop.simps) simp
    also note "1.IH"[OF True pushed]
    finally show ?thesis
      using True pushed by (simp add: upt_conv_Cons)
  qed
qed

lemma scan_eq:
  "scan doc = Some (concat (map (\<lambda>j. the (diagnosticsBody doc j)) [0..<lineCount doc]))"
  by (simp add: scan_def diagnosticsLoop_eq)

lemma scan_memberD:
  assumes "scan doc = Some ds" "d \<in> set ds"
  shows "\<exists>i name. i < lineCount doc
           \<and> matchDef (lines doc ! spec_findBlockStart doc i) = Some name
           \<and> \<not> spec_isValidFormat doc (spec_findBlockStart doc i) name
           \<and> d = newDiagnostic (spec_findBlockStart doc i)
                   (length (lines doc ! spec_findBlockStart doc i)) name"
proof -
  from assms obtain i where i: "i < lineCount doc" "d \<in> set (the (diagnosticsBody doc i))"
    by (auto simp: scan_eq)
  let ?s = "spec_findBlockStart doc i"
  show ?thesis
  proof (cases "matchDef (lines doc ! ?s)")
    case None
    with i show ?thesis by (simp add: diagnosticsBody_eq)
  next
    case (Some name)
    with i have "\<not> spec_isValidFormat doc ?s name"
      "d = newDiagnostic ?s (length (lines doc ! ?s)) name"
      by (auto simp: diagnosticsBody_eq split: if_splits)
    with i(1) Some show ?thesis by blast
  qed
qed

lemma hasValidFormat_eq:
  "hasValidFormat doc n name =
     (if spec_findBlockStart doc n < 3 \<or> spec_findBlockStart doc n < lineCount doc
      then Some (spec_isValidFormat doc (spec_findBlockStart doc n) name) else None)"
proof -
  let ?s = "spec_findBlockStart doc n"
  have start: "findFunctionStartLine doc n = Some ?s"
    by (rule findFunctionStartLine_eq)
  show ?thesis
  proof (cases "?s < 3")
    case True
    then show ?thesis
      by (simp add: hasValidFormat_def start spec_isValidFormat_def)
  next
    case False
    show ?thesis
    proof (cases "?s < lineCount doc")
      case in_range: True
      have e: "findEndOfFunction doc ?s = Some (spec_findBlockEnd doc ?s)"
        by (rule findEndOfFunction_eq[OF in_range])
      show ?thesis
        using False in_range
        by (simp add: hasValidFormat_def start e lineAt_def spec_isValidFormat_def) arith
    next
      case out: False
      then show ?thesis
        using False by (simp add: hasValidFormat_def start lineAt_def)
    qed
  qed
qed

lemma find_upt_None:
  "find P [i..<n] = None \<longleftrightarrow> (\<forall>k. i \<le> k \<and> k < n \<longrightarrow> \<not> P k)"
  by (auto simp: find_None_iff)

lemma spec_findBlockStart_matchDef:
  assumes "s < lineCount doc" "matchDef (lines doc ! s) = Some name"
  shows "spec_findBlockStart doc s = s"
  by (rule spec_findBlockStart_def_line[OF assms(1) matchDef_def_line[OF assms(2)]])

lemma spec_findBlockStart_less:
  "i < lineCount doc \<Longrightarrow> spec_findBlockStart doc i < lineCount doc"
  using spec_findBlockStart_cases[of doc i] by auto

lemma spec_findBlockStart_ge: "i \<le> spec_findBlockStart doc i"
  using spec_findBlockStart_cases[of doc i] by auto

lemma diagnosticsBody_startLine:
  assumes "i < lineCount doc" "d \<in> set (the (diagnosticsBody doc i))"
  shows "startLine d = spec_findBlockStart doc i"
  using assms(2)
  by (auto simp: diagnosticsBody_eq[OF assms(1)] newDiagnostic_def split: option.splits if_splits)

lemma diagnosticsBody_length:
  assumes "i < lineCount doc"
  shows "length (the (diagnosticsBody doc i)) =
           (if (case matchDef (lines doc ! spec_findBlockStart doc i) of
                  None \<Rightarrow> False
                | Some name \<Rightarrow> hasValidFormat doc (spec_findBlockStart doc i) name = Some False)
            then 1 else 0)"
proof (cases "matchDef (lines doc ! spec_findBlockStart doc i)")
  case None
  then show ?thesis by (simp add: diagnosticsBody_eq[OF assms])
next
  case (Some name)
  have "hasValidFormat doc (spec_findBlockStart doc i) name
          = Some (spec_isValidFormat doc (spec_findBlockStart doc i) name)"
    by (rule hasValidFormat_def_line[OF spec_findBlockStart_less[OF assms] matchDef_def_line[OF Some]])
  then show ?thesis
    using Some by (simp add: diagnosticsBody_eq[OF assms])
qed

lemma count_startLine:
  assumes "\<forall>i\<in>set cands. i < lineCount doc"
  shows "length (filter (\<lambda>d. startLine d = s) (concat (map (\<lambda>j. the (diagnosticsBody doc j)) cands)))
         = (if (case matchDef (lines doc ! s) of
                  None \<Rightarrow> False
                | Some name \<Rightarrow> hasValidFormat doc s name = Some False)
            then length (filter (\<lambda>i. findFunctionStartLine doc i = Some s) cands) else 0)"
  using assms
proof (induction cands)
  case Nil
  then show ?case by simp
next
  case (Cons j cands)
  then have j: "j < lineCount doc" by simp
  have here: "length (filter (\<lambda>d. startLine d = s) (the (diagnosticsBody doc j)))
        = (if spec_findBlockStart doc j = s
              \<and> (case matchDef (lines doc ! s) of
                  None \<Rightarrow> False
                | Some name \<Rightarrow> hasValidFormat doc s name = Some False)
           then 1 else 0)"
  proof (cases "spec_findBlockStart doc j = s")
    case True
    have "filter (\<lambda>d. startLine d = s) (the (diagnosticsBody doc j)) = the (diagnosticsBody doc j)"
      using diagnosticsBody_startLine[OF j] True by (simp add: filter_id_conv)
    then show ?thesis
      using diagnosticsBody_length[OF j, unfolded True] by (simp add: True)
  next
    case False
    have "filter (\<lambda>d. startLine d = s) (the (diagnosticsBody doc j)) = []"
      using diagnosticsBody_startLine[OF j] False by (auto simp: filter_empty_conv)
    then show ?thesis using False by simp
  qed
  from Cons have "length (filter (\<lambda>d. startLine d = s)
                   (concat (map (\<lambda>j. the (diagnosticsBody doc j)) cands)))
         = (if (case matchDef (lines doc ! s) of
                  None \<Rightarrow> False
                | Some name \<Rightarrow> hasValidFormat doc s name = Some False)
            then length (filter (\<lambda>i. findFunctionStartLine doc i = Some s) cands) else 0)"
    by simp
  with here show ?case
    by (simp add: findFunctionStartLine_eq)
qed

lemma upt_three:
  assumes "m = Suc (Suc (Suc k))"
  shows "[0..<m] = 0 # Suc 0 # 2 # [3..<m]" "[Suc 0..<m] = Suc 0 # 2 # [3..<m]"
    "[2..<m] = 2 # [3..<m]"
proof -
  have m: "0 < m" "Suc 0 < m" "2 < m" using assms by simp_all
  show u2: "[2..<m] = 2 # [3..<m]"
    using upt_conv_Cons[OF m(3)] by simp
  show u1: "[Suc 0..<m] = Suc 0 # 2 # [3..<m]"
    using upt_conv_Cons[OF m(2)] u2 by (simp add: numeral_2_eq_2)
  show "[0..<m] = 0 # Suc 0 # 2 # [3..<m]"
    using upt_conv_Cons[OF m(1)] u1 by simp
qed

lemma decorated_start:
  assumes "lines doc = a # b # c # rest"
    and "startsWith (trim a) (js ''@'')" and "startsWith (trim b) (js ''@'')"
    and "matchDef c = Some name"
  shows "spec_findBlockStart doc 0 = 2" "spec_findBlockStart doc (Suc 0) = 2"
    "spec_findBlockStart doc 2 = 2"
proof -
  have n: "lineCount doc = Suc (Suc (Suc (length rest)))"
    by (simp add: lineCount_def assms(1))
  have c: "startsWith (trim c) (js ''def '')"
    by (rule matchDef_def_line[OF assms(4)])
  note skip = startsWith_def_not_skipped[OF c]
  note upt0 = upt_three(1)[OF n] and upt1 = upt_three(2)[OF n] and upt2 = upt_three(3)[OF n]
  have l: "lines doc ! 0 = a" "lines doc ! Suc 0 = b" "lines doc ! 2 = c"
    by (simp_all add: assms(1) numeral_2_eq_2)
  show "spec_findBlockStart doc 0 = 2"
    unfolding spec_findBlockStart_def upt0 using assms(2,3) c skip by (simp add: l)
  show "spec_findBlockStart doc (Suc 0) = 2"
    unfolding spec_findBlockStart_def upt1 using assms(2,3) c skip by (simp add: l)
  show "spec_findBlockStart doc 2 = 2"
    unfolding spec_findBlockStart_def upt2 using assms(2,3) c skip by (simp add: l)
qed

lemma decorated_scan:
  assumes "lines doc = a # b # c # rest"
    and "startsWith (trim a) (js ''@'')" and "startsWith (trim b) (js ''@'')"
    and "matchDef c = Some name"
  shows "filter (\<lambda>d. startLine d \<le> 2)
           (concat (map (\<lambda>j. the (diagnosticsBody doc j)) [0..<lineCount doc]))
         = [newDiagnostic 2 (length c) name, newDiagnostic 2 (length c) name,
            newDiagnostic 2 (length c) name]"
proof -
  note start = decorated_start[OF assms]
  have n: "lineCount doc = Suc (Suc (Suc (length rest)))"
    by (simp add: lineCount_def assms(1))
  have c: "lines doc ! 2 = c" by (simp add: assms(1) numeral_2_eq_2)
  have inv: "\<not> spec_isValidFormat doc 2 name"
    by (simp add: spec_isValidFormat_def)
  have b: "the (diagnosticsBody doc i) = [newDiagnostic 2 (length c) name]"
    if "spec_findBlockStart doc i = 2" "i < lineCount doc" for i
    using that assms(4) inv by (simp add: diagnosticsBody_eq c)
  have b0: "the (diagnosticsBody doc 0) = [newDiagnostic 2 (length c) name]"
    by (rule b[OF start(1)]) (simp add: n)
  have b1: "the (diagnosticsBody doc (Suc 0)) = [newDiagnostic 2 (length c) name]"
    by (rule b[OF start(2)]) (simp add: n)
  have b2: "the (diagnosticsBody doc 2) = [newDiagnostic 2 (length c) name]"
    by (rule b[OF start(3)]) (simp add: n)
  have later: "filter (\<lambda>d. startLine d \<le> 2)
                 (concat (map (\<lambda>j. the (diagnosticsBody doc j)) [3..<lineCount doc])) = []"
  proof -
    have "\<not> startLine d \<le> 2"
      if j: "3 \<le> j" "j < lineCount doc" and "d \<in> set (the (diagnosticsBody doc j))" for j d
    proof -
      have "startLine d = spec_findBlockStart doc j"
        by (rule diagnosticsBody_startLine[OF j(2) that(3)])
      with spec_findBlockStart_ge[of j doc] j(1) show ?thesis by simp
    qed
    then show ?thesis
      by (auto simp: filter_empty_conv)
  qed
  show ?thesis
    unfolding upt_three(1)[OF n] using later by (simp add: b0 b1 b2 newDiagnostic_def)
qed

lemma decoratedExample_facts:
  "lines decoratedExample = js ''@first'' # js ''@second'' # js ''def foo():'' # []"
  "startsWith (trim (js ''@first'')) (js ''@'')"
  "startsWith (trim (js ''@second'')) (js ''@'')"
  "matchDef (js ''def foo():'') = Some (js ''foo'')"
  by (simp_all add: decoratedExample_def startsWith_def trim_def matchDef_def js_def
      isWhiteSpace_def isWordChar_def)

lemma scan_decoratedExample:
  "scan decoratedExample
     = Some [newDiagnostic 2 10 (js ''foo''), newDiagnostic 2 10 (js ''foo''),
             newDiagnostic 2 10 (js ''foo'')]"
proof -
  note start = decorated_start[OF decoratedExample_facts]
  have n: "lineCount decoratedExample = 3"
    by (simp add: decoratedExample_def lineCount_def)
  have upt0: "[0..<lineCount decoratedExample] = [0, Suc 0, 2]"
    by (simp add: n upt_conv_Cons)
  have l2: "lines decoratedExample ! 2 = js ''def foo():''"
    by (simp add: decoratedExample_def)
  have len: "length (js ''def foo():'') = 10"
    by (simp add: js_def)
  have "the (diagnosticsBody decoratedExample i) = [newDiagnostic 2 10 (js ''foo'')]"
    if "spec_findBlockStart decoratedExample i = 2" "i < 3" for i
    using that decoratedExample_facts(4)
    by (simp add: diagnosticsBody_eq n l2 len spec_isValidFormat_def)
  with start have "the (diagnosticsBody decoratedExample 0) = [newDiagnostic 2 10 (js ''foo'')]"
    "the (diagnosticsBody decoratedExample (Suc 0)) = [newDiagnostic 2 10 (js ''foo'')]"
    "the (diagnosticsBody decoratedExample 2) = [newDiagnostic 2 10 (js ''foo'')]"
    by simp_all
  then show ?thesis
    unfolding scan_eq upt0 by simp
qed

lemma trim_nth_cong:
  assumes "map trim (lines doc') = map trim (lines doc)" "j < lineCount doc"
  shows "trim (lines doc' ! j) = trim (lines doc ! j)"
proof -
  have len: "length (lines doc') = length (lines doc)"
    using assms(1) by (metis length_map)
  have "map trim (lines doc') ! j = map trim (lines doc) ! j"
    by (simp only: assms(1))
  then show ?thesis
    using assms(2) len by (simp add: lineCount_def)
qed

lemma lineCount_cong:
  "map trim (lines doc') = map trim (lines doc) \<Longrightarrow> lineCount doc' = lineCount doc"
  unfolding lineCount_def by (metis length_map)

lemma spec_findBlockStart_cong:
  assumes "map trim (lines doc') = map trim (lines doc)"
  shows "spec_findBlockStart doc' n = spec_findBlockStart doc n"
proof -
  have n: "lineCount doc' = lineCount doc" by (rule lineCount_cong[OF assms])
  have f: "find (\<lambda>i. \<not> (trim (lines doc' ! i) = [] \<or> startsWith (trim (lines doc' ! i)) (js ''@'')))
             [n..<lineCount doc]
         = find (\<lambda>i. \<not> (trim (lines doc ! i) = [] \<or> startsWith (trim (lines doc ! i)) (js ''@'')))
             [n..<lineCount doc]"
    by (rule find_cong) (simp_all add: trim_nth_cong[OF assms])
  show ?thesis
  proof (cases "find (\<lambda>i. \<not> (trim (lines doc ! i) = [] \<or> startsWith (trim (lines doc ! i)) (js ''@'')))
             [n..<lineCount doc]")
    case None
    then show ?thesis using f by (simp add: spec_findBlockStart_def n)
  next
    case (Some j)
    from find_upt_Some[OF Some] have "j < lineCount doc" by simp
    then show ?thesis
      using f Some by (simp add: spec_findBlockStart_def n trim_nth_cong[OF assms])
  qed
qed

lemma hasValidFormat_cong:
  assumes "map trim (lines doc') = map trim (lines doc)"
  shows "hasValidFormat doc' n name = hasValidFormat doc n name"
proof -
  let ?s = "spec_findBlockStart doc n"
  have s: "spec_findBlockStart doc' n = ?s" by (rule spec_findBlockStart_cong[OF assms])
  have n: "lineCount doc' = lineCount doc" by (rule lineCount_cong[OF assms])
  have "spec_isValidFormat doc' ?s name = spec_isValidFormat doc ?s name" if "?s < lineCount doc"
  proof (cases "3 \<le> ?s")
    case True
    with that have "?s - 3 < lineCount doc" "?s - 2 < lineCount doc" "?s - 1 < lineCount doc"
      by simp_all
    then show ?thesis
      using that unfolding spec_isValidFormat_def by (simp only: trim_nth_cong[OF assms])
  next
    case False
    then show ?thesis by (simp add: spec_isValidFormat_def)
  qed
  moreover have "spec_isValidFormat doc' ?s name = spec_isValidFormat doc ?s name" if "?s < 3"
    using that by (simp add: spec_isValidFormat_def)
  ultimately show ?thesis
    by (auto simp: hasValidFormat_eq s n)
qed

lemma hasValidFormat_bannerExample: "hasValidFormat bannerExample 3 (js ''foo'') = Some True"
proof -
  have h1: "3 < lineCount bannerExample"
    by (simp add: bannerExample_def lineCount_def)
  have h2: "startsWith (trim (lines bannerExample ! 3)) (js ''def '')"
    by (simp add: bannerExample_def startsWith_def trim_def js_def isWhiteSpace_def)
  have "spec_isValidFormat bannerExample 3 (js ''foo'')"
    by (simp add: spec_isValidFormat_def bannerExample_def startsWith_def trim_def js_def
        isWhiteSpace_def topComment_def)
  with hasValidFormat_def_line[OF h1 h2, of "js ''foo''"] show ?thesis by simp
qed

lemma paddedExample_trim: "map trim (lines paddedExample) = map trim (lines bannerExample)"
  by (simp add: paddedExample_def bannerExample_def trim_def js_def isWhiteSpace_def topComment_def)

lemma splitLines_not_Nil: "splitLines t \<noteq> []"
  by (induction t) (auto split: list.splits)

lemma splitLines_append_newline:
  "newline \<notin> set x \<Longrightarrow> splitLines (x @ newline # rest) = x # splitLines rest"
  by (induction x) auto

lemma newline_not_isWordChar: "\<not> isWordChar newline"
  by (simp add: isWordChar_def newline_def)

lemma newline_notin_topComment: "newline \<notin> set topComment"
  by (simp add: topComment_def newline_def js_def)

lemma newline_notin_functionComment:
  "\<forall>c\<in>set name. isWordChar c \<Longrightarrow> newline \<notin> set (functionComment name)"
  using newline_not_isWordChar by (auto simp: functionComment_def js_def newline_def)

lemma splitLines_banner:
  assumes "\<forall>c\<in>set name. isWordChar c"
  shows "splitLines (topComment @ [newline] @ functionComment name @ [newline] @ topComment @ [newline])
         = [topComment, functionComment name, topComment, []]"
  using newline_notin_topComment newline_notin_functionComment[OF assms]
  by (simp add: splitLines_append_newline)

lemma insertText_banner:
  assumes "s < length ls" "\<forall>c\<in>set name. isWordChar c"
  shows "insertText ls (s, 0)
           (topComment @ [newline] @ functionComment name @ [newline] @ topComment @ [newline])
         = take s ls @ [topComment, functionComment name, topComment, ls ! s] @ drop (Suc s) ls"
  unfolding insertText_def splitLines_banner[OF assms(2)] using assms(1) by (simp add: Let_def)

lemma insertText_later_line:
  assumes "s < l" "l < length ls"
  shows "take (Suc s) (insertText ls (l, c) content) = take (Suc s) ls"
  using assms unfolding insertText_def Let_def by (simp add: min_def)

lemma insertText_end_of_line:
  assumes "s < length ls"
  shows "take (Suc s) (insertText ls (s, length (ls ! s)) (newline # content)) = take (Suc s) ls"
proof -
  obtain piece pieces where p: "splitLines content = piece # pieces"
    using splitLines_not_Nil[of content] by (cases "splitLines content") auto
  have "insertText ls (s, length (ls ! s)) (newline # content)
          = take s ls @ (ls ! s # butlast (piece # pieces) @ [last (piece # pieces)])
            @ drop (Suc s) ls"
    using assms by (simp add: insertText_def Let_def p)
  then show ?thesis
    using assms by (simp add: take_Suc_conv_app_nth)
qed

lemma insertText_after_block:
  assumes "s < length ls" "s \<le> e"
  shows "take (Suc s) (insertText ls (validatePosition ls (e + 1, 0)) (newline # content))
         = take (Suc s) ls"
proof (cases "e + 1 < length ls")
  case True
  then have "validatePosition ls (e + 1, 0) = (e + 1, 0)"
    by (simp add: validatePosition_def)
  then show ?thesis
    using insertText_later_line[of s "e + 1" ls 0] assms(2) True by simp
next
  case False
  have ne: "ls \<noteq> []" using assms(1) by auto
  then have v: "validatePosition ls (e + 1, 0) = (length ls - 1, length (ls ! (length ls - 1)))"
    using False by (simp add: validatePosition_def last_conv_nth)
  show ?thesis
  proof (cases "s = length ls - 1")
    case True
    then show ?thesis
      unfolding v using insertText_end_of_line[OF assms(1)] by simp
  next
    case False
    with assms(1) have "s < length ls - 1" by simp
    then show ?thesis
      unfolding v using assms(1) by (intro insertText_later_line) simp_all
  qed
qed

lemma validatePosition_after_block:
  assumes "s < length ls" "s \<le> e"
  shows "(s, 0) \<le> validatePosition ls (e + 1, 0)"
  using assms by (auto simp: validatePosition_def)

lemma applyInsertions_fix:
  assumes "s < length ls" "s \<le> e" "\<forall>c\<in>set name. isWordChar c"
  shows "take 4 (drop s (applyInsertions ls
           [\<lparr>atLine = s, atCharacter = 0,
              newText = topComment @ [newline] @ functionComment name @ [newline]
                        @ topComment @ [newline]\<rparr>,
            \<lparr>atLine = e + 1, atCharacter = 0,
              newText = [newline] @ bottomComment name @ [newline]\<rparr>]))
         = [topComment, functionComment name, topComment, ls ! s]"
proof -
  let ?t1 = "topComment @ [newline] @ functionComment name @ [newline] @ topComment @ [newline]"
  let ?t2 = "newline # bottomComment name @ [newline]"
  let ?p2 = "validatePosition ls (e + 1, 0)"
  let ?ls2 = "insertText ls ?p2 ?t2"
  have p1: "validatePosition ls (s, 0) = (s, 0)"
    using assms(1) by (simp add: validatePosition_def)
  have order: "(s, 0) \<le> ?p2"
    by (rule validatePosition_after_block[OF assms(1,2)])
  have "applyInsertions ls
           [\<lparr>atLine = s, atCharacter = 0, newText = ?t1\<rparr>,
            \<lparr>atLine = e + 1, atCharacter = 0, newText = [newline] @ bottomComment name @ [newline]\<rparr>]
        = insertText ?ls2 (s, 0) ?t1"
    using order by (simp add: applyInsertions_def p1)
  moreover have keep: "take (Suc s) ?ls2 = take (Suc s) ls"
    by (rule insertText_after_block[OF assms(1,2)])
  have "length (take (Suc s) ?ls2) = length (take (Suc s) ls)"
    by (simp only: keep)
  then have s2: "s < length ?ls2"
    using assms(1) by (simp add: min_def split: if_splits)
  have at: "?ls2 ! s = ls ! s"
    by (metis keep lessI nth_take)
  have "insertText ?ls2 (s, 0) ?t1
          = take s ?ls2 @ [topComment, functionComment name, topComment, ?ls2 ! s]
            @ drop (Suc s) ?ls2"
    by (rule insertText_banner[OF s2 assms(3)])
  moreover have "take 4 (drop s (take s ?ls2 @ [topComment, functionComment name, topComment, ?ls2 ! s]
            @ drop (Suc s) ?ls2)) = [topComment, functionComment name, topComment, ?ls2 ! s]"
    using s2 by (simp add: min_def)
  ultimately show ?thesis
    by (simp only: at)
qed

lemma trim_topComment: "trim topComment = topComment"
  by (simp add: trim_def topComment_def js_def isWhiteSpace_def)

lemma trim_functionComment:
  assumes "name \<noteq> []" "\<forall>c\<in>set name. isWordChar c"
  shows "trim (functionComment name) = js ''# '' @ name"
proof -
  have "trim (js ''# '' @ name) = js ''# '' @ name"
  proof (rule trim_id)
    show "js ''# '' @ name \<noteq> []" using assms(1) by simp
    show "\<not> isWhiteSpace (hd (js ''# '' @ name))"
      by (simp add: js_def isWhiteSpace_def)
    have "last (js ''# '' @ name) = last name" using assms(1) by simp
    moreover have "isWordChar (last name)" using assms by simp
    ultimately show "\<not> isWhiteSpace (last (js ''# '' @ name))"
      by (simp add: isWordChar_not_isWhiteSpace)
  qed
  then show ?thesis by (simp add: functionComment_def)
qed

lemma take_drop_nth:
  assumes "take 4 (drop s xs) = [a, b, c, d]"
  shows "s + 3 < length xs" "xs ! s = a" "xs ! (s + 1) = b" "xs ! (s + 2) = c" "xs ! (s + 3) = d"
proof -
  have "length (take 4 (drop s xs)) = 4" by (simp only: assms) simp
  then show len: "s + 3 < length xs" by (simp add: min_def split: if_splits)
  have nth: "take 4 (drop s xs) ! k = xs ! (s + k)" if "k < 4" for k
    using that len by simp
  show "xs ! s = a" using nth[of 0] by (simp add: assms)
  show "xs ! (s + 1) = b" using nth[of 1] by (simp add: assms)
  show "xs ! (s + 2) = c" using nth[of 2] by (simp add: assms)
  show "xs ! (s + 3) = d" using nth[of 3] by (simp add: assms)
qed

lemma provideCodeActions_reported:
  assumes "s < lineCount doc" "matchDef (lines doc ! s) = Some name"
  shows "provideCodeActions doc [newDiagnostic s n name]
         = Some (Some [\<lparr>atLine = s, atCharacter = 0,
                         newText = topComment @ [newline] @ functionComment name @ [newline]
                                   @ topComment @ [newline]\<rparr>,
                       \<lparr>atLine = spec_findBlockEnd doc s + 1, atCharacter = 0,
                         newText = [newline] @ bottomComment name @ [newline]\<rparr>])"
proof -
  have fs: "findFunctionStartLine doc s = Some s"
    by (simp add: findFunctionStartLine_eq spec_findBlockStart_matchDef[OF assms])
  have "fixDiagnostic doc (newDiagnostic s n name)
         = Some [\<lparr>atLine = s, atCharacter = 0,
                         newText = topComment @ [newline] @ functionComment name @ [newline]
                                   @ topComment @ [newline]\<rparr>,
                       \<lparr>atLine = spec_findBlockEnd doc s + 1, atCharacter = 0,
                         newText = [newline] @ bottomComment name @ [newline]\<rparr>]"
    using assms
    by (simp add: fixDiagnostic_def newDiagnostic_def fs lineAt_def findEndOfFunction_eq)
  then show ?thesis
    by (simp add: provideCodeActions_def newDiagnostic_def)
qed

lemma fixed_function_valid:
  assumes "matchDef defLine = Some name"
    and "take 4 (drop s (lines doc')) = [topComment, functionComment name, topComment, defLine]"
  shows "spec_isValidFormat doc' (s + 3) name"
proof -
  note at = take_drop_nth[OF assms(2)]
  note name = matchDef_SomeD(1,2)[OF assms(1)]
  have "trim (lines doc' ! s) = topComment"
    by (simp add: at trim_topComment)
  moreover have "trim (lines doc' ! (s + 1)) = js ''# '' @ name"
    by (simp only: at trim_functionComment[OF name])
  moreover have "trim (lines doc' ! (s + 2)) = topComment"
    by (simp only: at trim_topComment)
  moreover have "startsWith (trim (lines doc' ! (s + 3))) (js ''def '' @ name)"
    by (simp only: at matchDef_trim[OF assms(1)])
  moreover have "s + 3 - 3 = s" "s + 3 - 2 = s + 1" "s + 3 - 1 = s + 2" by simp_all
  ultimately show ?thesis
    unfolding spec_isValidFormat_def by (simp only:) simp
qed

lemma twoLineExample_facts:
  "lineCount twoLineExample = 2"
  "matchDef (lines twoLineExample ! 0) = Some (js ''foo'')"
  "matchDef (lines twoLineExample ! Suc 0) = None"
  "length (lines twoLineExample ! 0) = 10"
  "lines twoLineExample ! 0 = js ''def foo():''"
  by (simp_all add: twoLineExample_def lineCount_def matchDef_def startsWith_def js_def
      isWordChar_def)

lemma scan_twoLineExample: "scan twoLineExample = Some [newDiagnostic 0 10 (js ''foo'')]"
proof -
  note f = twoLineExample_facts
  have s0: "spec_findBlockStart twoLineExample 0 = 0"
    by (rule spec_findBlockStart_matchDef[OF _ f(2)]) (simp add: f(1))
  have s1: "spec_findBlockStart twoLineExample (Suc 0) = Suc 0"
    by (simp add: spec_findBlockStart_def twoLineExample_def lineCount_def upt_conv_Cons
        startsWith_def trim_def js_def isWhiteSpace_def)
  have b1: "the (diagnosticsBody twoLineExample (Suc 0)) = []"
    by (simp add: diagnosticsBody_eq f(1) s1 f(3))
  have b0: "the (diagnosticsBody twoLineExample 0) = [newDiagnostic 0 10 (js ''foo'')]"
    by (simp add: diagnosticsBody_eq f(1) s0 f(2) f(4) spec_isValidFormat_def)
  show ?thesis
    by (simp add: scan_eq f(1) upt_conv_Cons b0 b1)
qed

lemma find_upt_first:
  assumes "i \<le> j" "j < n" "P j" "\<forall>k. i \<le> k \<and> k < j \<longrightarrow> \<not> P k"
  shows "find P [i..<n] = Some j"
proof (cases "find P [i..<n]")
  case None
  then show ?thesis using assms(1-3) by (simp add: find_upt_None)
next
  case (Some j')
  from find_upt_Some[OF Some] have j': "i \<le> j'" "j' < n" "P j'"
    "\<forall>k. i \<le> k \<and> k < j' \<longrightarrow> \<not> P k" by auto
  have "\<not> j' < j" using assms(4) j'(1,3) by blast
  moreover have "\<not> j < j'" using j'(4) assms(1,3) by blast
  ultimately show ?thesis using Some by simp
qed

text \<open>
  A definition line with fewer than three lines above it: \<^verbatim>\<open>hasValidFormat\<close> returns
  false, and when the text of the line matches the definition pattern the scan reports it.
\<close>

lemma insufficient_room_reported:
  assumes "s < lineCount doc" and "s < 3" and "startsWith (trim (lines doc ! s)) (js ''def '')"
  shows "hasValidFormat doc s name = Some False
         \<and> (\<exists>ds. scan doc = Some ds
                \<and> (matchDef (lines doc ! s) = Some name
                     \<longrightarrow> newDiagnostic s (length (lines doc ! s)) name \<in> set ds))"
proof -
  have invalid: "\<not> spec_isValidFormat doc s name"
    using assms(2) by (simp add: spec_isValidFormat_def)
  have v: "hasValidFormat doc s name = Some False"
    using hasValidFormat_def_line[OF assms(1,3), of name] invalid by simp
  have "newDiagnostic s (length (lines doc ! s)) name
               \<in> set (concat (map (\<lambda>j. the (diagnosticsBody doc j)) [0..<lineCount doc]))"
    if m: "matchDef (lines doc ! s) = Some name"
  proof -
    have start: "spec_findBlockStart doc s = s"
      by (rule spec_findBlockStart_matchDef[OF assms(1) m])
    have "the (diagnosticsBody doc s) = [newDiagnostic s (length (lines doc ! s)) name]"
      using m invalid by (simp add: diagnosticsBody_eq[OF assms(1)] start)
    then show ?thesis
      using assms(1) by (auto intro!: bexI[of _ s])
  qed
  with v show ?thesis
    by (simp add: scan_eq)
qed

lemma scan_no_raw_match:
  assumes "\<forall>l\<in>set (lines doc). matchDef l = None"
  shows "scan doc = Some []"
proof -
  have "the (diagnosticsBody doc i) = []" if "i < lineCount doc" for i
  proof -
    have "spec_findBlockStart doc i < length (lines doc)"
      using spec_findBlockStart_less[OF that] by (simp add: lineCount_def)
    with assms have "matchDef (lines doc ! spec_findBlockStart doc i) = None"
      by simp
    then show ?thesis
      by (simp add: diagnosticsBody_eq[OF that])
  qed
  then have "concat (map (\<lambda>j. the (diagnosticsBody doc j)) [0..<lineCount doc]) = []"
    by simp
  then show ?thesis
    by (simp add: scan_eq)
qed

lemma nestedExample_facts:
  "lineCount nestedExample = 5"
  "matchDef (trim (lines nestedExample ! 1)) = Some (js ''foo'')"
  "startsWith (trim (lines nestedExample ! 1)) (js ''def '')"
  "\<forall>l\<in>set (lines nestedExample). matchDef l = None"
  by (simp_all add: nestedExample_def lineCount_def matchDef_def startsWith_def trim_def js_def
      isWhiteSpace_def isWordChar_def)

lemma methodExample_facts:
  "lineCount methodExample = 4"
  "matchDef (trim (lines methodExample ! 2)) = Some (js ''bar'')"
  "startsWith (trim (lines methodExample ! 2)) (js ''def '')"
  "\<forall>l\<in>set (lines methodExample). matchDef l = None"
  by (simp_all add: methodExample_def lineCount_def matchDef_def startsWith_def trim_def js_def
      isWhiteSpace_def isWordChar_def)

section \<open>Claims\<close>

text \<open>
  Claim C1. For a line \<open>s\<close> of the document whose trimmed text begins with \<^verbatim>\<open>def\<close> and a
  space (every line that names a function is one), \<^verbatim>\<open>hasValidFormat\<close> returns, without
  raising, exactly the truth value of: \<open>s \<ge> 3\<close>, the trimmed line \<open>s - 3\<close> is the top rule, the
  trimmed line \<open>s - 2\<close> is \<^verbatim>\<open>#\<close>, a space and the name, the trimmed line \<open>s - 1\<close> is the top
  rule, and the trimmed line \<open>s\<close> begins with \<^verbatim>\<open>def\<close>, a space and the name. In particular it
  returns false when \<open>s < 3\<close>.
\<close>

theorem hasValidFormat_characterisation:
  assumes "s < lineCount doc" and "startsWith (trim (lines doc ! s)) (js ''def '')"
  shows "hasValidFormat doc s name = Some (spec_isValidFormat doc s name)
         \<and> (s < 3 \<longrightarrow> hasValidFormat doc s name = Some False)"
  using hasValidFormat_def_line[OF assms, of name]
  by (auto simp: spec_isValidFormat_def)

theorem hasValidFormat_characterisation_witness:
  "3 < lineCount bannerExample
   \<and> startsWith (trim (lines bannerExample ! 3)) (js ''def '')
   \<and> spec_isValidFormat bannerExample 3 (js ''foo'')
   \<and> hasValidFormat bannerExample 3 (js ''foo'') = Some True
   \<and> 0 < lineCount twoLineExample
   \<and> startsWith (trim (lines twoLineExample ! 0)) (js ''def '')
   \<and> (0::nat) < 3
   \<and> hasValidFormat twoLineExample 0 (js ''foo'') = Some False"
proof -
  have h1: "3 < lineCount bannerExample"
    by (simp add: bannerExample_def lineCount_def)
  have h2: "startsWith (trim (lines bannerExample ! 3)) (js ''def '')"
    by (simp add: bannerExample_def startsWith_def trim_def js_def isWhiteSpace_def)
  have v: "spec_isValidFormat bannerExample 3 (js ''foo'')"
    by (simp add: spec_isValidFormat_def bannerExample_def startsWith_def trim_def js_def
        isWhiteSpace_def topComment_def)
  have r1: "hasValidFormat bannerExample 3 (js ''foo'') = Some True"
    using hasValidFormat_characterisation[OF h1 h2, of "js ''foo''"] v by simp
  have g1: "0 < lineCount twoLineExample"
    by (simp add: twoLineExample_facts(1))
  have g2: "startsWith (trim (lines twoLineExample ! 0)) (js ''def '')"
    by (rule matchDef_def_line[OF twoLineExample_facts(2)])
  have g3: "(0::nat) < 3" by simp
  have r2: "hasValidFormat twoLineExample 0 (js ''foo'') = Some False"
    using hasValidFormat_characterisation[OF g1 g2, of "js ''foo''"] g3 by blast
  show ?thesis
    by (intro conjI h1 h2 v r1 g1 g2 g3 r2)
qed

text \<open>
  Claim C5. \<^verbatim>\<open>findFunctionStartLine\<close> never raises and returns what the specification's
  \<open>findBlockStart\<close> describes: scanning forward from \<open>fromLine\<close> over blank lines and
  decorator lines, the index of the definition line found first, and \<open>fromLine\<close> itself
  when another non-empty line comes first or the document ends.
\<close>

theorem findFunctionStartLine_refines_spec:
  "findFunctionStartLine doc fromLine = Some (spec_findBlockStart doc fromLine)
   \<and> (\<forall>j. fromLine \<le> j \<and> j < lineCount doc
          \<and> (\<forall>k. fromLine \<le> k \<and> k < j \<longrightarrow>
                 trim (lines doc ! k) = [] \<or> startsWith (trim (lines doc ! k)) (js ''@''))
          \<and> startsWith (trim (lines doc ! j)) (js ''def '')
        \<longrightarrow> findFunctionStartLine doc fromLine = Some j)
   \<and> (\<forall>j. fromLine \<le> j \<and> j < lineCount doc
          \<and> (\<forall>k. fromLine \<le> k \<and> k < j \<longrightarrow>
                 trim (lines doc ! k) = [] \<or> startsWith (trim (lines doc ! k)) (js ''@''))
          \<and> trim (lines doc ! j) \<noteq> [] \<and> \<not> startsWith (trim (lines doc ! j)) (js ''@'')
          \<and> \<not> startsWith (trim (lines doc ! j)) (js ''def '')
        \<longrightarrow> findFunctionStartLine doc fromLine = Some fromLine)
   \<and> ((\<forall>k. fromLine \<le> k \<and> k < lineCount doc \<longrightarrow>
          trim (lines doc ! k) = [] \<or> startsWith (trim (lines doc ! k)) (js ''@''))
        \<longrightarrow> findFunctionStartLine doc fromLine = Some fromLine)"
proof -
  let ?P = "\<lambda>i. \<not> (trim (lines doc ! i) = [] \<or> startsWith (trim (lines doc ! i)) (js ''@''))"
  have found: "spec_findBlockStart doc fromLine = j"
    if "fromLine \<le> j" "j < lineCount doc" "\<forall>k. fromLine \<le> k \<and> k < j \<longrightarrow> \<not> ?P k"
      "startsWith (trim (lines doc ! j)) (js ''def '')" for j
  proof -
    have "?P j" using startsWith_def_not_skipped[OF that(4)] by simp
    then have "find ?P [fromLine..<lineCount doc] = Some j"
      using that(1-3) by (intro find_upt_first) auto
    then show ?thesis using that(4) by (simp add: spec_findBlockStart_def)
  qed
  have blocked: "spec_findBlockStart doc fromLine = fromLine"
    if "fromLine \<le> j" "j < lineCount doc" "\<forall>k. fromLine \<le> k \<and> k < j \<longrightarrow> \<not> ?P k"
      "?P j" "\<not> startsWith (trim (lines doc ! j)) (js ''def '')" for j
  proof -
    have "find ?P [fromLine..<lineCount doc] = Some j"
      using that(1-4) by (intro find_upt_first) auto
    then show ?thesis using that(5) by (simp add: spec_findBlockStart_def)
  qed
  have ended: "spec_findBlockStart doc fromLine = fromLine"
    if "\<forall>k. fromLine \<le> k \<and> k < lineCount doc \<longrightarrow> \<not> ?P k"
  proof -
    have "find ?P [fromLine..<lineCount doc] = None"
      using that unfolding find_upt_None by blast
    then show ?thesis by (simp add: spec_findBlockStart_def)
  qed
  show ?thesis
  proof (intro conjI allI impI)
    show "findFunctionStartLine doc fromLine = Some (spec_findBlockStart doc fromLine)"
      by (rule findFunctionStartLine_eq)
  next
    fix j
    assume "fromLine \<le> j \<and> j < lineCount doc
          \<and> (\<forall>k. fromLine \<le> k \<and> k < j \<longrightarrow>
                 trim (lines doc ! k) = [] \<or> startsWith (trim (lines doc ! k)) (js ''@''))
          \<and> startsWith (trim (lines doc ! j)) (js ''def '')"
    then show "findFunctionStartLine doc fromLine = Some j"
      using found[of j] by (simp add: findFunctionStartLine_eq)
  next
    fix j
    assume "fromLine \<le> j \<and> j < lineCount doc
          \<and> (\<forall>k. fromLine \<le> k \<and> k < j \<longrightarrow>
                 trim (lines doc ! k) = [] \<or> startsWith (trim (lines doc ! k)) (js ''@''))
          \<and> trim (lines doc ! j) \<noteq> [] \<and> \<not> startsWith (trim (lines doc ! j)) (js ''@'')
          \<and> \<not> startsWith (trim (lines doc ! j)) (js ''def '')"
    then show "findFunctionStartLine doc fromLine = Some fromLine"
      using blocked[of j] by (simp add: findFunctionStartLine_eq)
  next
    assume "\<forall>k. fromLine \<le> k \<and> k < lineCount doc \<longrightarrow>
          trim (lines doc ! k) = [] \<or> startsWith (trim (lines doc ! k)) (js ''@'')"
    then show "findFunctionStartLine doc fromLine = Some fromLine"
      using ended by (simp add: findFunctionStartLine_eq)
  qed
qed

theorem findFunctionStartLine_refines_spec_witness:
  "(0::nat) \<le> 2 \<and> 2 < lineCount decoratedExample
   \<and> startsWith (trim (lines decoratedExample ! 0)) (js ''@'')
   \<and> startsWith (trim (lines decoratedExample ! Suc 0)) (js ''@'')
   \<and> startsWith (trim (lines decoratedExample ! 2)) (js ''def '')
   \<and> findFunctionStartLine decoratedExample 0 = Some 2"
proof -
  have h0: "(0::nat) \<le> 2" by simp
  have h1: "2 < lineCount decoratedExample"
    by (simp add: decoratedExample_def lineCount_def)
  have d0: "startsWith (trim (lines decoratedExample ! 0)) (js ''@'')"
    by (simp add: decoratedExample_def startsWith_def trim_def js_def isWhiteSpace_def)
  have d1: "startsWith (trim (lines decoratedExample ! Suc 0)) (js ''@'')"
    by (simp add: decoratedExample_def startsWith_def trim_def js_def isWhiteSpace_def)
  have h2: "\<forall>k. 0 \<le> k \<and> k < 2 \<longrightarrow>
          trim (lines decoratedExample ! k) = []
          \<or> startsWith (trim (lines decoratedExample ! k)) (js ''@'')"
  proof (intro allI impI)
    fix k :: nat assume "0 \<le> k \<and> k < 2"
    then have "k = 0 \<or> k = Suc 0" by arith
    then show "trim (lines decoratedExample ! k) = []
          \<or> startsWith (trim (lines decoratedExample ! k)) (js ''@'')"
      using d0 d1 by blast
  qed
  have h3: "startsWith (trim (lines decoratedExample ! 2)) (js ''def '')"
    by (simp add: decoratedExample_def startsWith_def trim_def js_def isWhiteSpace_def)
  have hyps: "(0::nat) \<le> 2 \<and> 2 < lineCount decoratedExample
   \<and> (\<forall>k. 0 \<le> k \<and> k < 2 \<longrightarrow>
          trim (lines decoratedExample ! k) = []
          \<or> startsWith (trim (lines decoratedExample ! k)) (js ''@''))
   \<and> startsWith (trim (lines decoratedExample ! 2)) (js ''def '')"
    by (intro conjI h0 h1 h2 h3)
  have r: "findFunctionStartLine decoratedExample 0 = Some 2"
    by (rule findFunctionStartLine_refines_spec[of decoratedExample 0,
          THEN conjunct2, THEN conjunct1, rule_format, OF hyps])
  show ?thesis
    by (intro conjI h0 h1 d0 d1 h3 r)
qed

text \<open>
  Claim C6. For a line \<open>s\<close> of the document, \<^verbatim>\<open>findEndOfFunction\<close> returns \<open>i - 1\<close> for the
  first line \<open>i\<close> after \<open>s\<close> that is not blank and is indented strictly less than \<open>s\<close> or
  begins with \<^verbatim>\<open>def\<close> and a space; blank lines never end the block; when there is no such
  line, it returns the index of the last line of the document.
\<close>

theorem findEndOfFunction_refines_spec:
  assumes "s < lineCount doc"
  shows "findEndOfFunction doc s = Some (spec_findBlockEnd doc s)
         \<and> (\<forall>i. s < i \<and> i < lineCount doc
                \<and> trim (lines doc ! i) \<noteq> []
                \<and> (firstNonWhitespaceCharacterIndex (lines doc ! i)
                        < firstNonWhitespaceCharacterIndex (lines doc ! s)
                    \<or> startsWith (trim (lines doc ! i)) (js ''def ''))
                \<and> (\<forall>k. s < k \<and> k < i \<longrightarrow>
                       trim (lines doc ! k) = []
                       \<or> (\<not> firstNonWhitespaceCharacterIndex (lines doc ! k)
                               < firstNonWhitespaceCharacterIndex (lines doc ! s)
                           \<and> \<not> startsWith (trim (lines doc ! k)) (js ''def '')))
              \<longrightarrow> findEndOfFunction doc s = Some (i - 1))
         \<and> ((\<forall>i. s < i \<and> i < lineCount doc \<longrightarrow>
                trim (lines doc ! i) = []
                \<or> (\<not> firstNonWhitespaceCharacterIndex (lines doc ! i)
                        < firstNonWhitespaceCharacterIndex (lines doc ! s)
                    \<and> \<not> startsWith (trim (lines doc ! i)) (js ''def '')))
              \<longrightarrow> findEndOfFunction doc s = Some (lineCount doc - 1))"
proof -
  let ?P = "\<lambda>i. trim (lines doc ! i) \<noteq> []
                      \<and> (firstNonWhitespaceCharacterIndex (lines doc ! i)
                            < firstNonWhitespaceCharacterIndex (lines doc ! s)
                         \<or> startsWith (trim (lines doc ! i)) (js ''def ''))"
  have eq: "findEndOfFunction doc s = Some (spec_findBlockEnd doc s)"
    by (rule findEndOfFunction_eq[OF assms])
  have found: "spec_findBlockEnd doc s = i - 1"
    if "s < i" "i < lineCount doc" "?P i" "\<forall>k. s < k \<and> k < i \<longrightarrow> \<not> ?P k" for i
  proof -
    have "find ?P [s + 1..<lineCount doc] = Some i"
      using that by (intro find_upt_first) auto
    then show ?thesis by (simp add: spec_findBlockEnd_def)
  qed
  have none: "spec_findBlockEnd doc s = lineCount doc - 1"
    if "\<forall>i. s < i \<and> i < lineCount doc \<longrightarrow> \<not> ?P i"
  proof -
    have "find ?P [s + 1..<lineCount doc] = None"
      unfolding find_upt_None using that by auto
    then show ?thesis by (simp add: spec_findBlockEnd_def)
  qed
  show ?thesis
  proof (intro conjI allI impI)
    show "findEndOfFunction doc s = Some (spec_findBlockEnd doc s)"
      by (rule eq)
  next
    fix i
    assume "s < i \<and> i < lineCount doc
                \<and> trim (lines doc ! i) \<noteq> []
                \<and> (firstNonWhitespaceCharacterIndex (lines doc ! i)
                        < firstNonWhitespaceCharacterIndex (lines doc ! s)
                    \<or> startsWith (trim (lines doc ! i)) (js ''def ''))
                \<and> (\<forall>k. s < k \<and> k < i \<longrightarrow>
                       trim (lines doc ! k) = []
                       \<or> (\<not> firstNonWhitespaceCharacterIndex (lines doc ! k)
                               < firstNonWhitespaceCharacterIndex (lines doc ! s)
                           \<and> \<not> startsWith (trim (lines doc ! k)) (js ''def '')))"
    then have "spec_findBlockEnd doc s = i - 1"
      by (intro found) auto
    then show "findEndOfFunction doc s = Some (i - 1)"
      by (simp add: eq)
  next
    assume "\<forall>i. s < i \<and> i < lineCount doc \<longrightarrow>
                trim (lines doc ! i) = []
                \<or> (\<not> firstNonWhitespaceCharacterIndex (lines doc ! i)
                        < firstNonWhitespaceCharacterIndex (lines doc ! s)
                    \<and> \<not> startsWith (trim (lines doc ! i)) (js ''def ''))"
    then have "spec_findBlockEnd doc s = lineCount doc - 1"
      by (intro none) auto
    then show "findEndOfFunction doc s = Some (lineCount doc - 1)"
      by (simp add: eq)
  qed
qed

theorem findEndOfFunction_refines_spec_witness:
  "1 < lineCount nestedExample
   \<and> (1::nat) < 4 \<and> 4 < lineCount nestedExample
   \<and> trim (lines nestedExample ! 4) \<noteq> []
   \<and> firstNonWhitespaceCharacterIndex (lines nestedExample ! 4)
          < firstNonWhitespaceCharacterIndex (lines nestedExample ! 1)
   \<and> \<not> firstNonWhitespaceCharacterIndex (lines nestedExample ! 2)
          < firstNonWhitespaceCharacterIndex (lines nestedExample ! 1)
   \<and> \<not> startsWith (trim (lines nestedExample ! 2)) (js ''def '')
   \<and> trim (lines nestedExample ! 3) = []
   \<and> findEndOfFunction nestedExample 1 = Some (4 - 1)
   \<and> 3 < lineCount bannerExample
   \<and> lineCount bannerExample = 5
   \<and> \<not> firstNonWhitespaceCharacterIndex (lines bannerExample ! 4)
          < firstNonWhitespaceCharacterIndex (lines bannerExample ! 3)
   \<and> \<not> startsWith (trim (lines bannerExample ! 4)) (js ''def '')
   \<and> findEndOfFunction bannerExample 3 = Some (lineCount bannerExample - 1)
   \<and> lineCount bannerExample - 1 = 4"
proof -
  have n: "lineCount nestedExample = 5" "lineCount bannerExample = 5"
    by (simp_all add: nestedExample_def bannerExample_def lineCount_def)
  have h1: "1 < lineCount nestedExample" and h14: "(1::nat) < 4"
    and h4: "4 < lineCount nestedExample" and h3: "3 < lineCount bannerExample"
    by (simp_all add: n)
  have ind1: "firstNonWhitespaceCharacterIndex (lines nestedExample ! 1) = 4"
    by (simp add: nestedExample_def js_def isWhiteSpace_def firstNonWhitespaceCharacterIndex_def)
  have l2: "\<not> firstNonWhitespaceCharacterIndex (lines nestedExample ! 2) < 4"
    "\<not> startsWith (trim (lines nestedExample ! 2)) (js ''def '')"
    by (simp_all add: nestedExample_def trim_def js_def isWhiteSpace_def startsWith_def
        firstNonWhitespaceCharacterIndex_def)
  have l3: "trim (lines nestedExample ! 3) = []"
    by (simp add: nestedExample_def js_def)
  have l4: "trim (lines nestedExample ! 4) \<noteq> []"
    by (simp add: nestedExample_def trim_def js_def isWhiteSpace_def)
  have l4i: "firstNonWhitespaceCharacterIndex (lines nestedExample ! 4)
          < firstNonWhitespaceCharacterIndex (lines nestedExample ! 1)"
    unfolding ind1
    by (simp add: nestedExample_def js_def isWhiteSpace_def firstNonWhitespaceCharacterIndex_def)
  then have l4': "firstNonWhitespaceCharacterIndex (lines nestedExample ! 4)
          < firstNonWhitespaceCharacterIndex (lines nestedExample ! 1)
        \<or> startsWith (trim (lines nestedExample ! 4)) (js ''def '')"
    by (rule disjI1)
  have between: "\<forall>k. 1 < k \<and> k < 4 \<longrightarrow>
          trim (lines nestedExample ! k) = []
          \<or> (\<not> firstNonWhitespaceCharacterIndex (lines nestedExample ! k)
                  < firstNonWhitespaceCharacterIndex (lines nestedExample ! 1)
              \<and> \<not> startsWith (trim (lines nestedExample ! k)) (js ''def ''))"
  proof (intro allI impI)
    fix k :: nat assume "1 < k \<and> k < 4"
    then have "k = 2 \<or> k = 3" by arith
    then show "trim (lines nestedExample ! k) = []
          \<or> (\<not> firstNonWhitespaceCharacterIndex (lines nestedExample ! k)
                  < firstNonWhitespaceCharacterIndex (lines nestedExample ! 1)
              \<and> \<not> startsWith (trim (lines nestedExample ! k)) (js ''def ''))"
      unfolding ind1 using l2 l3 by blast
  qed
  have b4: "trim (lines bannerExample ! 4) \<noteq> []"
    "\<not> firstNonWhitespaceCharacterIndex (lines bannerExample ! 4)
        < firstNonWhitespaceCharacterIndex (lines bannerExample ! 3)"
    "\<not> startsWith (trim (lines bannerExample ! 4)) (js ''def '')"
    by (simp_all add: bannerExample_def trim_def js_def isWhiteSpace_def startsWith_def
        firstNonWhitespaceCharacterIndex_def)
  have after: "\<forall>i. 3 < i \<and> i < lineCount bannerExample \<longrightarrow>
          trim (lines bannerExample ! i) = []
          \<or> (\<not> firstNonWhitespaceCharacterIndex (lines bannerExample ! i)
                  < firstNonWhitespaceCharacterIndex (lines bannerExample ! 3)
              \<and> \<not> startsWith (trim (lines bannerExample ! i)) (js ''def ''))"
  proof (intro allI impI)
    fix i :: nat assume "3 < i \<and> i < lineCount bannerExample"
    then have "i = 4" unfolding n by arith
    then show "trim (lines bannerExample ! i) = []
          \<or> (\<not> firstNonWhitespaceCharacterIndex (lines bannerExample ! i)
                  < firstNonWhitespaceCharacterIndex (lines bannerExample ! 3)
              \<and> \<not> startsWith (trim (lines bannerExample ! i)) (js ''def ''))"
      using b4 by blast
  qed
  have hyps: "(1::nat) < 4 \<and> 4 < lineCount nestedExample
                \<and> trim (lines nestedExample ! 4) \<noteq> []
                \<and> (firstNonWhitespaceCharacterIndex (lines nestedExample ! 4)
                        < firstNonWhitespaceCharacterIndex (lines nestedExample ! 1)
                    \<or> startsWith (trim (lines nestedExample ! 4)) (js ''def ''))
                \<and> (\<forall>k. 1 < k \<and> k < 4 \<longrightarrow>
                       trim (lines nestedExample ! k) = []
                       \<or> (\<not> firstNonWhitespaceCharacterIndex (lines nestedExample ! k)
                               < firstNonWhitespaceCharacterIndex (lines nestedExample ! 1)
                           \<and> \<not> startsWith (trim (lines nestedExample ! k)) (js ''def '')))"
    by (intro conjI h14 h4 l4 l4' between)
  have r1: "findEndOfFunction nestedExample 1 = Some (4 - 1)"
    by (rule findEndOfFunction_refines_spec[OF h1, THEN conjunct2, THEN conjunct1,
          rule_format, OF hyps])
  have r2: "findEndOfFunction bannerExample 3 = Some (lineCount bannerExample - 1)"
    by (rule findEndOfFunction_refines_spec[OF h3, THEN conjunct2, THEN conjunct2,
          THEN mp, OF after])
  have last: "lineCount bannerExample - 1 = 4"
    by (simp add: n)
  show ?thesis
    by (intro conjI h1 h14 h4 l4 l4i l2[folded ind1] l3 r1 h3 n(2) b4(2,3) r2 last)
qed

text \<open>
  Claim C10. No operation reads a line outside the document: \<^verbatim>\<open>findFunctionStartLine\<close>
  returns for every index, \<^verbatim>\<open>findEndOfFunction\<close>, \<^verbatim>\<open>hasValidFormat\<close> and one iteration of
  the scan return for every index below \<open>lineCount\<close>, and the scan and
  \<^verbatim>\<open>updateDiagnostics\<close> return for every document, the empty one included. (In the model
  each \<^verbatim>\<open>lineAt\<close> outside the document yields \<open>None\<close>, which every caller passes on.)
\<close>

theorem operations_total:
  "(\<exists>s. findFunctionStartLine doc i = Some s)
   \<and> (i < lineCount doc \<longrightarrow>
        (\<exists>e. findEndOfFunction doc i = Some e)
        \<and> (\<exists>valid. hasValidFormat doc i name = Some valid)
        \<and> (\<exists>pushed. diagnosticsBody doc i = Some pushed))
   \<and> (\<exists>diagnostics. scan doc = Some diagnostics)
   \<and> (\<exists>collection'. updateDiagnostics doc collection = Some collection')"
proof -
  have "spec_findBlockStart doc i < lineCount doc" if "i < lineCount doc"
    using spec_findBlockStart_cases[of doc i] that by auto
  then have "\<exists>valid. hasValidFormat doc i name = Some valid" if "i < lineCount doc"
    using that by (simp add: hasValidFormat_eq)
  then show ?thesis
    by (simp add: findFunctionStartLine_eq findEndOfFunction_eq diagnosticsBody_eq scan_eq
        updateDiagnostics_def)
qed

theorem operations_total_witness:
  "0 < lineCount emptyExample
   \<and> findFunctionStartLine emptyExample 0 = Some 0
   \<and> findEndOfFunction emptyExample 0 = Some 0
   \<and> hasValidFormat emptyExample 0 [] = Some False
   \<and> scan emptyExample = Some []"
proof -
  have h: "0 < lineCount emptyExample"
    by (simp add: emptyExample_def lineCount_def)
  from operations_total[of emptyExample 0 "[]" Map.empty] h
  obtain s e valid ds where r: "findFunctionStartLine emptyExample 0 = Some s"
    "findEndOfFunction emptyExample 0 = Some e" "hasValidFormat emptyExample 0 [] = Some valid"
    "scan emptyExample = Some ds"
    by blast
  have s: "spec_findBlockStart emptyExample 0 = 0"
    by (simp add: spec_findBlockStart_def emptyExample_def lineCount_def upt_conv_Cons)
  have "s = 0" using r(1) s by (simp add: findFunctionStartLine_eq)
  moreover have "e = 0"
    using r(2) h by (simp add: findEndOfFunction_eq spec_findBlockEnd_def emptyExample_def lineCount_def)
  moreover have "valid = False"
    using r(3) s by (simp add: hasValidFormat_eq spec_isValidFormat_def)
  moreover have "ds = []"
    using r(4) s
    by (simp add: scan_eq diagnosticsBody_eq emptyExample_def lineCount_def matchDef_def
        startsWith_def js_def)
  ultimately show ?thesis using r h by simp
qed

text \<open>
  Claim C9, evaluated on an indented definition with fewer than three lines above it. In
  the document \<^verbatim>\<open>class A:\<close>, an empty line, \<^verbatim>\<open>    def bar(self):\<close>, \<^verbatim>\<open>        return 2\<close>,
  line 2 is the start line of the function \<^verbatim>\<open>bar\<close>. \<^verbatim>\<open>hasValidFormat\<close> returns false there
  without raising and the scan returns, as the claim says, but the list is empty: the
  function is not reported, because the loop of \<^verbatim>\<open>updateDiagnostics\<close> matches the pattern
  against the text that is not trimmed. For a definition line that is not indented the
  diagnostic is in the list (lemma \<open>insufficient_room_reported\<close>).
\<close>

theorem insufficient_room_indented_not_reported:
  "2 < lineCount methodExample \<and> (2::nat) < 3
   \<and> matchDef (trim (lines methodExample ! 2)) = Some (js ''bar'')
   \<and> findFunctionStartLine methodExample 2 = Some 2
   \<and> hasValidFormat methodExample 2 (js ''bar'') = Some False
   \<and> scan methodExample = Some []"
proof -
  have n: "2 < lineCount methodExample"
    by (simp add: methodExample_facts(1))
  have "findFunctionStartLine methodExample 2 = Some 2"
    by (simp add: findFunctionStartLine_eq
        spec_findBlockStart_def_line[OF n methodExample_facts(3)])
  moreover have "hasValidFormat methodExample 2 (js ''bar'') = Some False"
    using hasValidFormat_def_line[OF n methodExample_facts(3), of "js ''bar''"]
    by (simp add: spec_isValidFormat_def)
  ultimately show ?thesis
    using n methodExample_facts(2) scan_no_raw_match[OF methodExample_facts(4)] by simp
qed

text \<open>
  Claim C8. The closing banner has no influence on validity. Let \<open>s\<close> be a definition
  line of a document and \<open>e\<close> the end of its block. A second document that agrees with
  the first on the lines up to \<open>e\<close>, whatever follows them (another line after \<open>e\<close>, a
  missing one, an added one), gets the same result of \<^verbatim>\<open>hasValidFormat\<close> at \<open>s\<close>.
\<close>

theorem closing_banner_not_enforced:
  assumes "s < lineCount doc" and "startsWith (trim (lines doc ! s)) (js ''def '')"
    and "findEndOfFunction doc s = Some e"
    and "take (Suc e) (lines doc') = take (Suc e) (lines doc)"
  shows "hasValidFormat doc' s name = hasValidFormat doc s name"
proof -
  have "s \<le> e"
    using assms(3) spec_findBlockEnd_bounds[OF assms(1)] by (simp add: findEndOfFunction_eq[OF assms(1)])
  have same: "lines doc' ! j = lines doc ! j" if "j \<le> s" for j
  proof -
    have "j < Suc e" using that \<open>s \<le> e\<close> by simp
    then show ?thesis by (metis assms(4) nth_take)
  qed
  have "length (take (Suc e) (lines doc')) = length (take (Suc e) (lines doc))"
    by (simp only: assms(4))
  then have s': "s < lineCount doc'"
    using assms(1) \<open>s \<le> e\<close> by (simp add: lineCount_def min_def split: if_splits)
  have d': "startsWith (trim (lines doc' ! s)) (js ''def '')"
    using assms(2) same[of s] by simp
  have "spec_isValidFormat doc' s name = spec_isValidFormat doc s name"
    by (simp add: spec_isValidFormat_def same)
  then show ?thesis
    by (simp add: hasValidFormat_def_line[OF assms(1,2)] hasValidFormat_def_line[OF s' d'])
qed

theorem closing_banner_not_enforced_witness:
  "3 < lineCount bannerExample
   \<and> startsWith (trim (lines bannerExample ! 3)) (js ''def '')
   \<and> findEndOfFunction bannerExample 3 = Some 4
   \<and> take (Suc 4) (lines closedExample) = take (Suc 4) (lines bannerExample)
   \<and> hasValidFormat closedExample 3 (js ''foo'') = hasValidFormat bannerExample 3 (js ''foo'')"
proof -
  have h1: "3 < lineCount bannerExample"
    by (simp add: bannerExample_def lineCount_def)
  have h2: "startsWith (trim (lines bannerExample ! 3)) (js ''def '')"
    by (simp add: bannerExample_def startsWith_def trim_def js_def isWhiteSpace_def)
  have "spec_findBlockEnd bannerExample 3 = 4"
    by (simp add: spec_findBlockEnd_def bannerExample_def lineCount_def upt_conv_Cons
        startsWith_def trim_def js_def isWhiteSpace_def firstNonWhitespaceCharacterIndex_def)
  then have h3: "findEndOfFunction bannerExample 3 = Some 4"
    by (simp add: findEndOfFunction_eq[OF h1])
  have h4: "take (Suc 4) (lines closedExample) = take (Suc 4) (lines bannerExample)"
    by (simp add: closedExample_def bannerExample_def)
  from closing_banner_not_enforced[OF h1 h2 h3 h4] h1 h2 h3 h4 show ?thesis
    by simp
qed

text \<open>
  Claim C3, evaluated on an indented definition. In the document \<^verbatim>\<open>class A:\<close>,
  \<^verbatim>\<open>    def foo(self):\<close>, \<^verbatim>\<open>        pass\<close>, an empty line, \<^verbatim>\<open>x = 1\<close>, the trimmed text of
  line 1 matches the definition pattern with the name \<^verbatim>\<open>foo\<close> and
  \<^verbatim>\<open>hasValidFormat\<close> is false there, yet the scan reports nothing: the loop of
  \<^verbatim>\<open>updateDiagnostics\<close> matches the pattern against the text that is not trimmed.
\<close>

theorem indented_def_not_reported:
  "matchDef (trim (lines nestedExample ! 1)) = Some (js ''foo'')
   \<and> hasValidFormat nestedExample 1 (js ''foo'') = Some False
   \<and> scan nestedExample = Some []"
proof -
  have "hasValidFormat nestedExample 1 (js ''foo'') = Some False"
    using hasValidFormat_def_line[OF _ nestedExample_facts(3), of "js ''foo''"]
    by (simp add: nestedExample_facts(1) spec_isValidFormat_def)
  with nestedExample_facts(2) scan_no_raw_match[OF nestedExample_facts(4)] show ?thesis
    by simp
qed

text \<open>
  Claim C2 as stated fails. For the document \<^verbatim>\<open>@first\<close>, \<^verbatim>\<open>@second\<close>, \<^verbatim>\<open>def foo():\<close> the
  scan reports the definition line three times: once for each index from which
  \<^verbatim>\<open>findFunctionStartLine\<close> arrives at it.
\<close>

theorem scan_duplicates_counterexample:
  "map_option (map startLine) (scan decoratedExample) = Some [2, 2, 2]"
  by (simp add: scan_decoratedExample newDiagnostic_def)

text \<open>
  Claim C2, amended. In the list one scan produces, a start line \<open>s\<close> appears once for
  every index \<open>i\<close> of the document from which \<^verbatim>\<open>findFunctionStartLine\<close> arrives at \<open>s\<close>,
  when line \<open>s\<close> names a function whose format is not valid, and not at all otherwise.
  For a document that begins with two decorator lines and a definition, the diagnostics
  in these three lines are exactly three, all at the definition line and none at a
  decorator line.
\<close>

theorem scan_one_per_candidate:
  assumes "scan doc = Some ds"
  shows "length (filter (\<lambda>d. startLine d = s) ds)
         = (if (case matchDef (lines doc ! s) of
                  None \<Rightarrow> False
                | Some name \<Rightarrow> hasValidFormat doc s name = Some False)
            then length (filter (\<lambda>i. findFunctionStartLine doc i = Some s) [0..<lineCount doc])
            else 0)
         \<and> (\<forall>a b c rest name.
               lines doc = a # b # c # rest \<and> startsWith (trim a) (js ''@'')
               \<and> startsWith (trim b) (js ''@'') \<and> matchDef c = Some name
               \<longrightarrow> filter (\<lambda>d. startLine d \<le> 2) ds
                     = [newDiagnostic 2 (length c) name, newDiagnostic 2 (length c) name,
                        newDiagnostic 2 (length c) name])"
proof -
  have ds: "ds = concat (map (\<lambda>j. the (diagnosticsBody doc j)) [0..<lineCount doc])"
    using assms by (simp add: scan_eq)
  have "length (filter (\<lambda>d. startLine d = s) ds)
         = (if (case matchDef (lines doc ! s) of
                  None \<Rightarrow> False
                | Some name \<Rightarrow> hasValidFormat doc s name = Some False)
            then length (filter (\<lambda>i. findFunctionStartLine doc i = Some s) [0..<lineCount doc])
            else 0)"
    unfolding ds by (rule count_startLine) simp
  moreover have "filter (\<lambda>d. startLine d \<le> 2) ds
                     = [newDiagnostic 2 (length c) name, newDiagnostic 2 (length c) name,
                        newDiagnostic 2 (length c) name]"
    if "lines doc = a # b # c # rest" "startsWith (trim a) (js ''@'')"
      "startsWith (trim b) (js ''@'')" "matchDef c = Some name" for a b c rest name
    unfolding ds by (rule decorated_scan[OF that])
  ultimately show ?thesis by blast
qed

theorem scan_one_per_candidate_witness:
  "scan decoratedExample
     = Some [newDiagnostic 2 10 (js ''foo''), newDiagnostic 2 10 (js ''foo''),
             newDiagnostic 2 10 (js ''foo'')]
   \<and> lines decoratedExample = js ''@first'' # js ''@second'' # js ''def foo():'' # []
   \<and> startsWith (trim (js ''@first'')) (js ''@'')
   \<and> startsWith (trim (js ''@second'')) (js ''@'')
   \<and> matchDef (js ''def foo():'') = Some (js ''foo'')
   \<and> hasValidFormat decoratedExample 2 (js ''foo'') = Some False
   \<and> length (filter (\<lambda>i. findFunctionStartLine decoratedExample i = Some 2)
               [0..<lineCount decoratedExample]) = 3
   \<and> filter (\<lambda>d. startLine d \<le> 2)
        [newDiagnostic 2 10 (js ''foo''), newDiagnostic 2 10 (js ''foo''),
         newDiagnostic 2 10 (js ''foo'')]
       = [newDiagnostic 2 (length (js ''def foo():'')) (js ''foo''),
          newDiagnostic 2 (length (js ''def foo():'')) (js ''foo''),
          newDiagnostic 2 (length (js ''def foo():'')) (js ''foo'')]"
proof -
  note inst = scan_one_per_candidate[OF scan_decoratedExample, of 2]
  have l2: "lines decoratedExample ! 2 = js ''def foo():''"
    by (simp add: decoratedExample_def)
  have three: "length (filter (\<lambda>d. startLine d = 2)
                 [newDiagnostic 2 10 (js ''foo''), newDiagnostic 2 10 (js ''foo''),
                  newDiagnostic 2 10 (js ''foo'')]) = 3"
    by (simp add: newDiagnostic_def)
  from inst three have count:
    "(if (case matchDef (lines decoratedExample ! 2) of
            None \<Rightarrow> False
          | Some name \<Rightarrow> hasValidFormat decoratedExample 2 name = Some False)
      then length (filter (\<lambda>i. findFunctionStartLine decoratedExample i = Some 2)
                     [0..<lineCount decoratedExample])
      else 0) = 3"
    by simp
  then have v: "hasValidFormat decoratedExample 2 (js ''foo'') = Some False"
    and c: "length (filter (\<lambda>i. findFunctionStartLine decoratedExample i = Some 2)
                     [0..<lineCount decoratedExample]) = 3"
    by (simp_all add: l2 decoratedExample_facts(4) split: if_splits)
  from inst decoratedExample_facts have
    "filter (\<lambda>d. startLine d \<le> 2)
        [newDiagnostic 2 10 (js ''foo''), newDiagnostic 2 10 (js ''foo''),
         newDiagnostic 2 10 (js ''foo'')]
       = [newDiagnostic 2 (length (js ''def foo():'')) (js ''foo''),
          newDiagnostic 2 (length (js ''def foo():'')) (js ''foo''),
          newDiagnostic 2 (length (js ''def foo():'')) (js ''foo'')]"
    by blast
  with scan_decoratedExample decoratedExample_facts v c show ?thesis
    by simp
qed

text \<open>
  Claim C4 as stated fails. In a document whose three banner lines carry added leading or
  trailing spaces, none of them equals its literal, and \<^verbatim>\<open>hasValidFormat\<close> accepts the
  function all the same: every line is trimmed before it is compared.
\<close>

theorem padded_banner_accepted_counterexample:
  "lines paddedExample ! 0 \<noteq> topComment
   \<and> lines paddedExample ! 1 \<noteq> js ''# '' @ js ''foo''
   \<and> lines paddedExample ! 2 \<noteq> topComment
   \<and> hasValidFormat paddedExample 3 (js ''foo'') = Some True"
proof -
  have "hasValidFormat paddedExample 3 (js ''foo'') = Some True"
    using hasValidFormat_cong[OF paddedExample_trim, of 3 "js ''foo''"]
    by (simp add: hasValidFormat_bannerExample)
  moreover have "lines paddedExample ! 0 \<noteq> topComment"
    "lines paddedExample ! 1 \<noteq> js ''# '' @ js ''foo''"
    "lines paddedExample ! 2 \<noteq> topComment"
    by (simp_all add: paddedExample_def topComment_def js_def)
  ultimately show ?thesis by simp
qed

text \<open>
  Claim C4, amended. The three banner lines are compared with the literals after leading
  and trailing whitespace has been removed. Whenever \<^verbatim>\<open>hasValidFormat\<close> returns true, the
  trimmed text of each of the three lines above the start line equals its literal, so
  every deviation that is left after trimming makes the result false. Whitespace around
  a line is ignored: two documents whose lines have the same trimmed text get the same
  result.
\<close>

theorem banner_compared_after_trim:
  "(findFunctionStartLine doc n = Some s \<and> hasValidFormat doc n name = Some True
      \<longrightarrow> 3 \<le> s
          \<and> trim (lines doc ! (s - 3)) = topComment
          \<and> trim (lines doc ! (s - 2)) = js ''# '' @ name
          \<and> trim (lines doc ! (s - 1)) = topComment)
   \<and> (map trim (lines doc') = map trim (lines doc)
      \<longrightarrow> hasValidFormat doc' n name = hasValidFormat doc n name)"
proof -
  have "spec_isValidFormat doc s name"
    if "findFunctionStartLine doc n = Some s" "hasValidFormat doc n name = Some True"
    using that by (auto simp: findFunctionStartLine_eq hasValidFormat_eq split: if_splits)
  then show ?thesis
    using hasValidFormat_cong[of doc' doc n name] by (auto simp: spec_isValidFormat_def)
qed

theorem banner_compared_after_trim_witness:
  "findFunctionStartLine bannerExample 3 = Some 3
   \<and> hasValidFormat bannerExample 3 (js ''foo'') = Some True
   \<and> trim (lines bannerExample ! (3 - 3)) = topComment
   \<and> trim (lines bannerExample ! (3 - 2)) = js ''# '' @ js ''foo''
   \<and> trim (lines bannerExample ! (3 - 1)) = topComment
   \<and> map trim (lines paddedExample) = map trim (lines bannerExample)
   \<and> hasValidFormat paddedExample 3 (js ''foo'') = hasValidFormat bannerExample 3 (js ''foo'')"
proof -
  have h1: "3 < lineCount bannerExample"
    by (simp add: bannerExample_def lineCount_def)
  have h2: "startsWith (trim (lines bannerExample ! 3)) (js ''def '')"
    by (simp add: bannerExample_def startsWith_def trim_def js_def isWhiteSpace_def)
  have start: "findFunctionStartLine bannerExample 3 = Some 3"
    by (simp add: findFunctionStartLine_eq spec_findBlockStart_def_line[OF h1 h2])
  from banner_compared_after_trim[of bannerExample 3 3 "js ''foo''" paddedExample]
    start hasValidFormat_bannerExample paddedExample_trim
  show ?thesis by simp
qed

text \<open>
  Claim C7. For every diagnostic \<open>d\<close> that the scan of a document reports,
  \<^verbatim>\<open>provideCodeActions\<close> for \<open>d\<close> returns two insertions: the three banner lines for the
  function's name at the start line, and an empty line and the closing banner after the
  end of the block. Applied to the document, they leave the banner in the three lines
  from the old start line on and the definition line three lines further down, and the
  scan of the resulting document returns without a diagnostic at that line.
\<close>

theorem fix_then_rescan:
  assumes "scan doc = Some ds" and "d \<in> set ds"
  shows "\<exists>name e edit ds'.
           matchDef (lines doc ! startLine d) = Some name
         \<and> findEndOfFunction doc (startLine d) = Some e
         \<and> edit = [\<lparr>atLine = startLine d, atCharacter = 0,
                     newText = topComment @ [newline] @ functionComment name @ [newline]
                               @ topComment @ [newline]\<rparr>,
                   \<lparr>atLine = e + 1, atCharacter = 0,
                     newText = [newline] @ bottomComment name @ [newline]\<rparr>]
         \<and> provideCodeActions doc [d] = Some (Some edit)
         \<and> take 4 (drop (startLine d) (applyInsertions (lines doc) edit))
             = [topComment, functionComment name, topComment, lines doc ! startLine d]
         \<and> scan (doc\<lparr>lines := applyInsertions (lines doc) edit\<rparr>) = Some ds'
         \<and> (\<forall>d'\<in>set ds'. startLine d' \<noteq> startLine d + 3)"
proof -
  from scan_memberD[OF assms] obtain i name where i: "i < lineCount doc"
    and m: "matchDef (lines doc ! spec_findBlockStart doc i) = Some name"
    and d: "d = newDiagnostic (spec_findBlockStart doc i)
                  (length (lines doc ! spec_findBlockStart doc i)) name"
    by blast
  define s where "s = spec_findBlockStart doc i"
  define e where "e = spec_findBlockEnd doc s"
  define edit where "edit = [\<lparr>atLine = s, atCharacter = 0,
                     newText = topComment @ [newline] @ functionComment name @ [newline]
                               @ topComment @ [newline]\<rparr>,
                   \<lparr>atLine = e + 1, atCharacter = 0,
                     newText = [newline] @ bottomComment name @ [newline]\<rparr>]"
  define doc' where "doc' = doc\<lparr>lines := applyInsertions (lines doc) edit\<rparr>"
  have sd: "startLine d = s"
    by (simp add: d s_def newDiagnostic_def)
  have s: "s < lineCount doc"
    unfolding s_def by (rule spec_findBlockStart_less[OF i])
  have m': "matchDef (lines doc ! s) = Some name"
    using m by (simp add: s_def)
  have fe: "findEndOfFunction doc s = Some e"
    by (simp add: e_def findEndOfFunction_eq[OF s])
  have se: "s \<le> e"
    using spec_findBlockEnd_bounds[OF s] by (simp add: e_def)
  have fixed: "provideCodeActions doc [d] = Some (Some edit)"
    unfolding d edit_def e_def s_def[symmetric] by (rule provideCodeActions_reported[OF s m'])
  have four: "take 4 (drop s (applyInsertions (lines doc) edit))
                = [topComment, functionComment name, topComment, lines doc ! s]"
    unfolding edit_def
    by (rule applyInsertions_fix[OF s[unfolded lineCount_def] se matchDef_SomeD(2)[OF m']])
  have four': "take 4 (drop s (lines doc'))
                = [topComment, functionComment name, topComment, lines doc ! s]"
    using four by (simp add: doc'_def)
  have valid: "spec_isValidFormat doc' (s + 3) name"
    by (rule fixed_function_valid[OF m' four'])
  have at: "lines doc' ! (s + 3) = lines doc ! s"
    by (rule take_drop_nth(5)[OF four'])
  obtain ds' where ds': "scan doc' = Some ds'"
    by (simp add: scan_eq)
  have "startLine d' \<noteq> s + 3" if "d' \<in> set ds'" for d'
  proof
    assume eq: "startLine d' = s + 3"
    from scan_memberD[OF ds' that] obtain i' name' where
      m2: "matchDef (lines doc' ! spec_findBlockStart doc' i') = Some name'"
      and inv: "\<not> spec_isValidFormat doc' (spec_findBlockStart doc' i') name'"
      and d': "d' = newDiagnostic (spec_findBlockStart doc' i')
                  (length (lines doc' ! spec_findBlockStart doc' i')) name'"
      by blast
    have "spec_findBlockStart doc' i' = s + 3"
      using eq by (simp add: d' newDiagnostic_def)
    with m2 inv at m' valid show False by simp
  qed
  with m' fe fixed four ds' show ?thesis
    unfolding sd doc'_def edit_def by blast
qed

theorem fix_then_rescan_witness:
  "scan twoLineExample = Some [newDiagnostic 0 10 (js ''foo'')]
   \<and> newDiagnostic 0 10 (js ''foo'') \<in> set [newDiagnostic 0 10 (js ''foo'')]
   \<and> (\<exists>edit ds'.
         provideCodeActions twoLineExample [newDiagnostic 0 10 (js ''foo'')] = Some (Some edit)
       \<and> take 4 (applyInsertions (lines twoLineExample) edit)
           = [topComment, js ''# foo'', topComment, js ''def foo():'']
       \<and> scan (twoLineExample\<lparr>lines := applyInsertions (lines twoLineExample) edit\<rparr>) = Some ds'
       \<and> 3 \<notin> set (map startLine ds'))"
proof -
  have h2: "newDiagnostic 0 10 (js ''foo'') \<in> set [newDiagnostic 0 10 (js ''foo'')]"
    by simp
  have sl: "startLine (newDiagnostic 0 10 (js ''foo'')) = 0"
    by (simp add: newDiagnostic_def)
  from fix_then_rescan[OF scan_twoLineExample h2] obtain name e edit ds' where
    r: "matchDef (lines twoLineExample ! 0) = Some name"
      "provideCodeActions twoLineExample [newDiagnostic 0 10 (js ''foo'')] = Some (Some edit)"
      "take 4 (drop 0 (applyInsertions (lines twoLineExample) edit))
         = [topComment, functionComment name, topComment, lines twoLineExample ! 0]"
      "scan (twoLineExample\<lparr>lines := applyInsertions (lines twoLineExample) edit\<rparr>) = Some ds'"
      "\<forall>d'\<in>set ds'. startLine d' \<noteq> 0 + 3"
    unfolding sl by blast
  from r(1) have name: "name = js ''foo''"
    by (simp add: twoLineExample_facts(2))
  have "functionComment (js ''foo'') = js ''# foo''"
    by (simp add: functionComment_def js_def)
  with r(3) have "take 4 (applyInsertions (lines twoLineExample) edit)
           = [topComment, js ''# foo'', topComment, js ''def foo():'']"
    by (simp add: name twoLineExample_facts(5))
  with r(2,4,5) scan_twoLineExample h2 show ?thesis
    by auto
qed

end
